theory Spec2Isabelle
  imports Complex_Main "HOL-Library.AList" "HOL-Library.List_Lexorder" "HOL-Library.Product_Lexorder"
    "HOL-Library.Multiset"
begin

section \<open>Python values, exceptions and loops\<close>

text \<open>
  Node identifiers are natural numbers; a Python tuple of nodes (a commodity \<open>(s, d)\<close>, a
  directed link \<open>(i, j)\<close>, an auxiliary index \<open>(u, i, j)\<close>, a node permutation) is a list.
  A Python \<open>set\<close> that the code iterates is a duplicate-free list in iteration order; a
  \<open>dict\<close> is a map. Every exception the code can raise is a value of \<open>py_error\<close>,
  and a function that can raise returns \<open>py_error + 'a\<close>.
\<close>

datatype py_error = IndexError | KeyError | NameError | TypeError | ValueError
  | ZeroDivisionError | AssertionError | FileNotFoundError | NetworkXError | AttributeError

definition ebind :: "'e + 'a \<Rightarrow> ('a \<Rightarrow> 'e + 'b) \<Rightarrow> 'e + 'b" where
  "ebind m f = (case m of Inl e \<Rightarrow> Inl e | Inr v \<Rightarrow> f v)"

text \<open>A \<open>for\<close> loop over a list whose body may raise: the first exception ends the loop.\<close>

fun efold :: "('a \<Rightarrow> 's \<Rightarrow> 'e + 's) \<Rightarrow> 'a list \<Rightarrow> 's \<Rightarrow> 'e + 's" where
  "efold f [] s = Inr s"
| "efold f (x # xs) s = (case f x s of Inl e \<Rightarrow> Inl e | Inr s' \<Rightarrow> efold f xs s')"

definition getitem :: "'a list \<Rightarrow> nat \<Rightarrow> py_error + 'a" where
  "getitem xs i = (if i < length xs then Inr (xs ! i) else Inl IndexError)"

text \<open>\<open>applyGenerator(nodes, autmap) = tuple(autmap[n] for n in nodes)\<close>\<close>

fun applyGenerator :: "nat list \<Rightarrow> 'a list \<Rightarrow> py_error + 'a list" where
  "applyGenerator [] autmap = Inr []"
| "applyGenerator (n # ns) autmap =
     (case getitem autmap n of
        Inl e \<Rightarrow> Inl e
      | Inr v \<Rightarrow> (case applyGenerator ns autmap of Inl e \<Rightarrow> Inl e | Inr vs \<Rightarrow> Inr (v # vs)))"

section \<open>The topology object and the persisted artifacts\<close>

record topology =
  UG_nodes :: "(nat \<times> nat \<times> bool) list"
  UG_edges :: "((nat \<times> nat) \<times> real) list"
  AllNodes :: "nat list"
  HostNodes :: "nat list"
  Commodities :: "nat list list"
  DLinks :: "nat list list"
  Autgen :: "nat list list"
  RepCommodities :: "nat list list"
  RepCommFlowLinks :: "nat list \<rightharpoonup> nat list list"
  RepAuxiliarys :: "nat list list"
  RepLinkConstrs :: "nat list list"

text \<open>
  The files under \<open>commpath\<close>, \<open>flowpath\<close> and \<open>auxpath\<close>, one map per family of file
  names; the key is the tuple the file name is formatted from. A reverse map is built from
  \<open>[None]*len(fmap)\<close>, so its entries are optional. \<open>Stage\<close> holds the checkpoints
  under \<open>stagepath\<close>, keyed by file name: a stage whose file exists loads it and does
  nothing else.
\<close>

record files =
  CommodityGroup :: "nat list \<rightharpoonup> nat list list"
  AutomorphicMap_Forward :: "nat list \<rightharpoonup> nat list"
  AutomorphicMap_Reverse :: "nat list \<rightharpoonup> nat option list"
  FlowLinkMap :: "nat list \<rightharpoonup> (nat list \<rightharpoonup> nat list)"
  AuxiliaryGroup :: "nat list \<rightharpoonup> nat list list"
  AuxToRep :: "nat \<rightharpoonup> (nat list \<rightharpoonup> nat list)"
  Stage :: "string \<rightharpoonup> nat list list"

text \<open>A \<open>networkx.DiGraph\<close> whose edges carry a dict from commodity to flow.\<close>

record digraph =
  dg_nodes :: "nat list"
  dg_adj :: "(nat \<times> nat) \<rightharpoonup> (nat list \<rightharpoonup> real)"

datatype lpvar = R_var | F_var "nat list" "nat list" | B_var "nat list" | G_var "nat list"

text \<open>
  The pickled objects under \<open>outputpath\<close>: a routing graph, a dict from variable name
  to value (a variable's name is formatted from its indices, so the variable stands for
  its name), or a number.
\<close>

datatype artifact = Routing digraph | Solution "(lpvar \<times> real) list" | Throughput real

text \<open>The files under \<open>outputpath\<close>, keyed by file name.\<close>

type_synonym outputs = "string \<rightharpoonup> artifact"

section \<open>Optimization: the solver's result and the routing artifacts\<close>

datatype grb_status = OPTIMAL | TIME_LIMIT | INFEASIBLE | OTHER_STATUS

text \<open>
  A linear expression built by \<open>sum(...)\<close> over variables plus an integer: the
  variables in the order they are summed, and the constant. A constraint has the name
  the code formats (\<open>fc_s_d_n\<close> is \<open>FC s d n\<close>), two sides and a sense.
\<close>

type_synonym linexpr = "lpvar list \<times> int"

datatype cname = FC nat nat nat

datatype sense = EQ | LE

record constr =
  c_name :: cname
  c_lhs :: linexpr
  c_sense :: sense
  c_rhs :: linexpr

text \<open>
  The Gurobi model: the constraints added so far and, after \<open>M.optimize()\<close>, the
  external solver's answer.
\<close>

record model =
  constrs :: "constr list"
  status :: grb_status
  ObjVal :: real
  X :: "lpvar \<Rightarrow> real"

text \<open>
  The optimization object; \<open>opt_B\<close> and \<open>opt_G\<close> are the dicts \<open>self.B\<close> and
  \<open>self.G\<close> from a representative auxiliary index to its variable.
\<close>

record optimization =
  Topo :: topology
  M :: model
  F :: "nat list \<rightharpoonup> (nat list \<rightharpoonup> lpvar)"
  opt_B :: "nat list \<rightharpoonup> lpvar"
  opt_G :: "nat list \<rightharpoonup> lpvar"

definition add_node :: "digraph \<Rightarrow> nat \<Rightarrow> digraph" where
  "add_node g n = (if n \<in> set (dg_nodes g) then g else g\<lparr>dg_nodes := dg_nodes g @ [n]\<rparr>)"

definition add_edge :: "digraph \<Rightarrow> nat \<Rightarrow> nat \<Rightarrow> digraph" where
  "add_edge g i j =
     (let g' = add_node (add_node g i) j
      in g'\<lparr>dg_adj := (dg_adj g')((i, j) \<mapsto>
             (case dg_adj g' (i, j) of None \<Rightarrow> Map.empty | Some d \<Rightarrow> d))\<rparr>)"

text \<open>\<open>g[i][j][repsd] = flow\<close>\<close>

definition set_flow :: "digraph \<Rightarrow> nat \<Rightarrow> nat \<Rightarrow> nat list \<Rightarrow> real \<Rightarrow> py_error + digraph" where
  "set_flow g i j repsd v =
     (case dg_adj g (i, j) of
        None \<Rightarrow> Inl KeyError
      | Some d \<Rightarrow> Inr (g\<lparr>dg_adj := (dg_adj g)((i, j) \<mapsto> d(repsd \<mapsto> v))\<rparr>))"

text \<open>\<open>F[repsd][flowmap[l]]\<close> and \<open>F[repsd][flowmap[l]].X\<close>\<close>

definition flowVar :: "optimization \<Rightarrow> (nat list \<rightharpoonup> nat list) \<Rightarrow> nat list \<Rightarrow> nat list
    \<Rightarrow> py_error + lpvar" where
  "flowVar opt flowmap repsd l =
     (case F opt repsd of
        None \<Rightarrow> Inl KeyError
      | Some Fr \<Rightarrow>
         (case flowmap l of
            None \<Rightarrow> Inl KeyError
          | Some rl \<Rightarrow> (case Fr rl of None \<Rightarrow> Inl KeyError | Some v \<Rightarrow> Inr v)))"

definition flowX :: "optimization \<Rightarrow> (nat list \<rightharpoonup> nat list) \<Rightarrow> nat list \<Rightarrow> nat list
    \<Rightarrow> py_error + real" where
  "flowX opt flowmap repsd l = ebind (flowVar opt flowmap repsd l) (\<lambda>v. Inr (X (M opt) v))"

text \<open>The body of the loop over \<open>Topo.RepCommodities\<close> for one undirected edge \<open>(i, j)\<close>.\<close>

definition routeCommodity :: "optimization \<Rightarrow> files \<Rightarrow> nat \<Rightarrow> nat \<Rightarrow> nat list \<Rightarrow> digraph
    \<Rightarrow> py_error + digraph" where
  "routeCommodity opt fs i j repsd g =
     (case FlowLinkMap fs repsd of
        None \<Rightarrow> Inl FileNotFoundError
      | Some flowmap \<Rightarrow>
          ebind (flowX opt flowmap repsd [i, j]) (\<lambda>flowij.
          ebind (flowX opt flowmap repsd [j, i]) (\<lambda>flowji.
          ebind (if flowij > 0 then set_flow g i j repsd flowij else Inr g) (\<lambda>g1.
          (if flowji > 0 then set_flow g1 j i repsd flowji else Inr g1)))))"

definition routeEdge :: "optimization \<Rightarrow> files \<Rightarrow> ((nat \<times> nat) \<times> real) \<Rightarrow> digraph
    \<Rightarrow> py_error + digraph" where
  "routeEdge opt fs e g =
     (case e of ((i, j), c) \<Rightarrow>
        efold (routeCommodity opt fs i j) (RepCommodities (Topo opt))
          (add_edge (add_edge g i j) j i))"

text \<open>
  The graph that both \<open>saveOptimalRouting\<close> and \<open>saveIntermediateRouting\<close> build before
  they write it (the two bodies are the same text up to \<open>pickle.dump\<close>).
\<close>

definition buildRouting :: "optimization \<Rightarrow> files \<Rightarrow> py_error + digraph" where
  "buildRouting opt fs =
     efold (routeEdge opt fs) (UG_edges (Topo opt))
       (foldl add_node \<lparr>dg_nodes = [], dg_adj = Map.empty\<rparr>
          (map fst (UG_nodes (Topo opt))))"

text \<open>
  \<open>saveIntermediateRouting\<close> binds the locals \<open>Topo\<close>, \<open>F\<close> and \<open>g\<close> only, and the module
  \<open>optimization\<close> binds no global \<open>M\<close>: the name \<open>M\<close> in \<open>M.getVars()\<close> resolves to
  nothing.
\<close>

definition saveIntermediateRouting_name_M :: "model option" where
  "saveIntermediateRouting_name_M = None"

definition getVars :: "optimization \<Rightarrow> lpvar list" where
  "getVars opt = R_var #
     concat (map (\<lambda>repsd. case F opt repsd of None \<Rightarrow> [] | Some Fr \<Rightarrow>
        concat (map (\<lambda>l. case Fr l of None \<Rightarrow> [] | Some v \<Rightarrow> [v])
          (case RepCommFlowLinks (Topo opt) repsd of None \<Rightarrow> [] | Some ls \<Rightarrow> ls)))
        (RepCommodities (Topo opt)))
     @ map B_var (RepAuxiliarys (Topo opt)) @ map G_var (RepAuxiliarys (Topo opt))"

definition saveIntermediateRouting :: "optimization \<Rightarrow> files \<Rightarrow> outputs
    \<Rightarrow> (py_error + unit) \<times> outputs" where
  "saveIntermediateRouting opt fs out =
     (case buildRouting opt fs of
        Inl e \<Rightarrow> (Inl e, out)
      | Inr g \<Rightarrow>
         (let out1 = out(''IntermediateRouting'' \<mapsto> Routing g)
          in case saveIntermediateRouting_name_M of
               None \<Rightarrow> (Inl NameError, out1)
             | Some m \<Rightarrow>
                 (Inr (), out1(''IntermediateSolution'' \<mapsto>
                    Solution (map (\<lambda>v. (v, X m v)) (getVars opt))))))"

definition computeOptimalSolution :: "optimization \<Rightarrow> files \<Rightarrow> outputs
    \<Rightarrow> (py_error + real option) \<times> outputs" where
  "computeOptimalSolution opt fs out =
     (if status (M opt) = OPTIMAL then
        (if ObjVal (M opt) = 0 then (Inl ZeroDivisionError, out)
         else (Inr (Some (1 / ObjVal (M opt))), out))
      else if status (M opt) = TIME_LIMIT then
        (case saveIntermediateRouting opt fs out of
           (Inl e, out') \<Rightarrow> (Inl e, out')
         | (Inr u, out') \<Rightarrow> (Inr None, out'))
      else (Inl AssertionError, out))"


subsection \<open>Flow conservation constraints\<close>

text \<open>
  \<open>Topo.UG.neighbors(n)\<close>: the other endpoint of every edge at \<open>n\<close>, in edge order;
  NetworkX raises for a node that is not in the graph.
\<close>

definition neighbors :: "topology \<Rightarrow> nat \<Rightarrow> py_error + nat list" where
  "neighbors T n =
     (if n \<in> fst ` set (UG_nodes T) \<union> (fst \<circ> fst) ` set (UG_edges T)
            \<union> (snd \<circ> fst) ` set (UG_edges T)
      then Inr (concat (map (\<lambda>e. case e of ((a, b), c) \<Rightarrow>
              if a = n then [b] else if b = n then [a] else []) (UG_edges T)))
      else Inl NetworkXError)"

text \<open>\<open>sum(F[repsd][flowmap[l]] for l in links)\<close>\<close>

fun sumFlowVars :: "optimization \<Rightarrow> (nat list \<rightharpoonup> nat list) \<Rightarrow> nat list \<Rightarrow> nat list list
    \<Rightarrow> py_error + lpvar list" where
  "sumFlowVars opt flowmap repsd [] = Inr []"
| "sumFlowVars opt flowmap repsd (l # ls) =
     (case flowVar opt flowmap repsd l of
        Inl e \<Rightarrow> Inl e
      | Inr v \<Rightarrow>
          (case sumFlowVars opt flowmap repsd ls of Inl e \<Rightarrow> Inl e | Inr vs \<Rightarrow> Inr (v # vs)))"

text \<open>The constraint \<open>flowin == flowout\<close> of one commodity at one node.\<close>

definition fcConstr :: "optimization \<Rightarrow> (nat list \<rightharpoonup> nat list) \<Rightarrow> nat \<Rightarrow> nat \<Rightarrow> nat
    \<Rightarrow> py_error + constr" where
  "fcConstr opt flowmap s d n =
     ebind (neighbors (Topo opt) n) (\<lambda>hs.
     ebind (sumFlowVars opt flowmap [s, d] (map (\<lambda>h. [h, n]) hs)) (\<lambda>flowin.
     ebind (sumFlowVars opt flowmap [s, d] (map (\<lambda>h. [n, h]) hs)) (\<lambda>flowout.
       Inr \<lparr>c_name = FC s d n, c_lhs = (flowin, if n = s then 1 else 0), c_sense = EQ,
            c_rhs = (flowout, if n = d then 1 else 0)\<rparr>)))"

definition fcNode :: "optimization \<Rightarrow> (nat list \<rightharpoonup> nat list) \<Rightarrow> nat \<Rightarrow> nat \<Rightarrow> nat
    \<Rightarrow> constr list \<Rightarrow> py_error + constr list" where
  "fcNode opt flowmap s d n cs = ebind (fcConstr opt flowmap s d n) (\<lambda>c. Inr (cs @ [c]))"

definition fcCommodity :: "optimization \<Rightarrow> files \<Rightarrow> nat list \<Rightarrow> constr list
    \<Rightarrow> py_error + constr list" where
  "fcCommodity opt fs repsd cs =
     (case repsd of
        [s, d] \<Rightarrow>
          (case FlowLinkMap fs repsd of
             None \<Rightarrow> Inl FileNotFoundError
           | Some flowmap \<Rightarrow> efold (fcNode opt flowmap s d) (AllNodes (Topo opt)) cs)
      | _ \<Rightarrow> Inl ValueError)"

definition setFlowConservationConstraint :: "optimization \<Rightarrow> files \<Rightarrow> py_error + optimization"
  where
  "setFlowConservationConstraint opt fs =
     ebind (efold (fcCommodity opt fs) (RepCommodities (Topo opt)) (constrs (M opt)))
       (\<lambda>cs. Inr (opt\<lparr>M := (M opt)\<lparr>constrs := cs\<rparr>\<rparr>))"

section \<open>Verification: one worst-case-load problem per directed link\<close>

text \<open>\<open>Topo.UG.get_edge_data(*link)['capacity']\<close> on the undirected graph.\<close>

fun edge_capacity :: "((nat \<times> nat) \<times> real) list \<Rightarrow> nat \<Rightarrow> nat \<Rightarrow> real option" where
  "edge_capacity [] i j = None"
| "edge_capacity (((a, b), c) # es) i j =
     (if (a = i \<and> b = j) \<or> (a = j \<and> b = i) then Some c else edge_capacity es i j)"

definition capacity :: "topology \<Rightarrow> nat list \<Rightarrow> py_error + real" where
  "capacity T link =
     (case link of
        [i, j] \<Rightarrow> (case edge_capacity (UG_edges T) i j of None \<Rightarrow> Inl TypeError | Some c \<Rightarrow> Inr c)
      | _ \<Rightarrow> Inl TypeError)"

text \<open>\<open>max(values)\<close>, which raises on an empty sequence.\<close>

definition pymax :: "real list \<Rightarrow> py_error + real" where
  "pymax xs = (case xs of [] \<Rightarrow> Inl ValueError | x # ys \<Rightarrow> Inr (fold max ys x))"

record verification =
  vTopo :: topology
  intermediate :: bool

text \<open>
  The LP of \<open>findMaxLinkLoad\<close> is the external solver's work: it is a parameter giving
  the objective value for a link, or the failed assertion. The loop records the links it
  was called on.
\<close>

definition linkLoadStep :: "topology \<Rightarrow> (nat list \<Rightarrow> py_error + real) \<Rightarrow> nat list
    \<Rightarrow> (nat list \<times> real) list \<times> nat list list
    \<Rightarrow> py_error + (nat list \<times> real) list \<times> nat list list" where
  "linkLoadStep T findMaxLinkLoad link st =
     (case st of (linkload, calls) \<Rightarrow>
        ebind (findMaxLinkLoad link) (\<lambda>maxload.
        ebind (capacity T link) (\<lambda>c.
          if c = 0 then Inl ZeroDivisionError
          else Inr (AList.update link (maxload / c) linkload, calls @ [link]))))"

definition verifyAllLinkLoad :: "verification \<Rightarrow> (nat list \<Rightarrow> py_error + real) \<Rightarrow> outputs
    \<Rightarrow> py_error + ((real \<times> real) option \<times> nat list list \<times> outputs)" where
  "verifyAllLinkLoad ver findMaxLinkLoad out =
     (case out ''VerifiedThroughput'' of
        Some a \<Rightarrow>
          (case a of
             Throughput verifiedThroughput \<Rightarrow>
               if verifiedThroughput = 0 then Inl ZeroDivisionError else Inr (None, [], out)
           | _ \<Rightarrow> Inl TypeError)
      | None \<Rightarrow>
          ebind (efold (linkLoadStep (vTopo ver) findMaxLinkLoad) (DLinks (vTopo ver)) ([], []))
            (\<lambda>(linkload, calls).
          ebind (pymax (map snd linkload)) (\<lambda>maxload.
            if maxload = 0 then Inl ZeroDivisionError
            else
              (let verifiedThroughput = 1 / maxload
               in Inr (Some (maxload, verifiedThroughput), calls,
                    (if intermediate ver
                     then out(''VerifiedIntermediateThroughput'' \<mapsto> Throughput verifiedThroughput)
                     else out(''VerifiedThroughput'' \<mapsto> Throughput verifiedThroughput)))))))"

section \<open>Solution grouping\<close>

text \<open>
  A signature is the sorted tuple of \<open>(link, repflowlink, flow)\<close>; \<open>splitgroups\<close> maps a
  representative commodity to a dict from signature to the set of commodities having it.
\<close>

type_synonym code = "(nat list \<times> nat list \<times> real) list"

type_synonym splitgroups = "(nat list \<times> (code \<times> nat list list) list) list"

record solution_grouping =
  gTopo :: topology
  Route :: digraph

record grouping_files =
  SplitGroupsAtNodes :: "nat \<rightharpoonup> splitgroups"
  CountRouteInfo :: "nat \<rightharpoonup> nat \<times> nat"

text \<open>
  \<open>Route.get_edge_data(*repflowlink)\<close> followed by \<open>.keys()\<close>: a tuple that is not a
  pair is a wrong number of arguments, and a missing edge yields \<open>None\<close>, which has no
  \<open>keys\<close>.
\<close>

definition get_edge_data :: "digraph \<Rightarrow> nat list \<Rightarrow> py_error + (nat list \<rightharpoonup> real)" where
  "get_edge_data g link =
     (case link of
        [i, j] \<Rightarrow> (case dg_adj g (i, j) of None \<Rightarrow> Inl AttributeError | Some d \<Rightarrow> Inr d)
      | _ \<Rightarrow> Inl TypeError)"

text \<open>
  \<open>flowlinkmap[alink]\<close>: the keys of the map are tuples of integers, so a tuple holding
  \<open>None\<close> is a missing key.
\<close>

definition lookup_alink :: "(nat list \<rightharpoonup> nat list) \<Rightarrow> nat option list \<Rightarrow> py_error + nat list"
  where
  "lookup_alink flowlinkmap alink =
     (if None \<in> set alink then Inl KeyError
      else (case flowlinkmap (map the alink) of None \<Rightarrow> Inl KeyError | Some l \<Rightarrow> Inr l))"

definition encodeStep :: "solution_grouping \<Rightarrow> files \<Rightarrow> (nat list \<rightharpoonup> nat list) \<Rightarrow> nat
    \<Rightarrow> nat list \<Rightarrow> nat list \<Rightarrow> nat \<Rightarrow> code \<Rightarrow> py_error + code" where
  "encodeStep sg fs flowlinkmap node repsd sd nh code =
     (let link = [node, nh]
      in case AutomorphicMap_Reverse fs sd of
           None \<Rightarrow> Inl FileNotFoundError
         | Some rmap \<Rightarrow>
             ebind (applyGenerator link rmap) (\<lambda>alink.
             ebind (lookup_alink flowlinkmap alink) (\<lambda>repflowlink.
             ebind (get_edge_data (Route sg) repflowlink) (\<lambda>d.
               case d repsd of
                 None \<Rightarrow> Inr code
               | Some flow \<Rightarrow> Inr (code @ [(link, repflowlink, flow)])))))"

definition encodeFlows :: "solution_grouping \<Rightarrow> files \<Rightarrow> nat \<Rightarrow> nat list \<Rightarrow> nat list
    \<Rightarrow> py_error + code" where
  "encodeFlows sg fs node repsd sd =
     (case FlowLinkMap fs repsd of
        None \<Rightarrow> Inl FileNotFoundError
      | Some flowlinkmap \<Rightarrow>
          ebind (neighbors (gTopo sg) node) (\<lambda>nhs.
          ebind (efold (encodeStep sg fs flowlinkmap node repsd sd) nhs []) (\<lambda>code.
            Inr (sort code))))"

text \<open>
  \<open>if code not in commsplit: commsplit[code] = set()\<close> and
  \<open>commsplit[code].add(autsd)\<close>
\<close>

definition addToGroup :: "code \<Rightarrow> nat list \<Rightarrow> (code \<times> nat list list) list
    \<Rightarrow> (code \<times> nat list list) list" where
  "addToGroup code autsd commsplit =
     AList.update code
       (List.insert autsd (case map_of commsplit code of None \<Rightarrow> [] | Some grp \<Rightarrow> grp))
       commsplit"

definition groupStep :: "solution_grouping \<Rightarrow> files \<Rightarrow> nat \<Rightarrow> nat list \<Rightarrow> nat list
    \<Rightarrow> (code \<times> nat list list) list \<Rightarrow> py_error + (code \<times> nat list list) list" where
  "groupStep sg fs node repsd autsd commsplit =
     ebind (encodeFlows sg fs node repsd autsd) (\<lambda>code. Inr (addToGroup code autsd commsplit))"

definition groupCommodity :: "solution_grouping \<Rightarrow> files \<Rightarrow> nat \<Rightarrow> nat list \<Rightarrow> splitgroups
    \<Rightarrow> py_error + splitgroups" where
  "groupCommodity sg fs node repsd splitgroups =
     (case CommodityGroup fs repsd of
        None \<Rightarrow> Inl FileNotFoundError
      | Some autcomms \<Rightarrow>
          ebind (efold (groupStep sg fs node repsd) autcomms []) (\<lambda>commsplit.
            Inr (AList.update repsd commsplit splitgroups)))"

text \<open>The loop over \<open>splitgroups[repsd].keys()\<close> of \<open>countRouteInfoAtNode\<close>.\<close>

definition countKey :: "(code \<times> nat list list) list \<Rightarrow> code \<Rightarrow> nat \<times> nat
    \<Rightarrow> py_error + nat \<times> nat" where
  "countKey commsplit sdgrp cnt =
     (case cnt of (cntall, cntcpt) \<Rightarrow>
        if length sdgrp = 0 then Inr (cntall, cntcpt)
        else (case map_of commsplit sdgrp of
                None \<Rightarrow> Inl KeyError
              | Some grp \<Rightarrow> Inr (cntall + length grp, cntcpt + 1)))"

definition countCommodity :: "splitgroups \<Rightarrow> nat list \<Rightarrow> nat \<times> nat \<Rightarrow> py_error + nat \<times> nat"
  where
  "countCommodity splitgroups repsd cnt =
     (case map_of splitgroups repsd of
        None \<Rightarrow> Inl KeyError
      | Some commsplit \<Rightarrow> efold (countKey commsplit) (map fst commsplit) cnt)"

definition countRouteInfoAtNode :: "solution_grouping \<Rightarrow> splitgroups \<Rightarrow> nat \<Rightarrow> grouping_files
    \<Rightarrow> py_error + (nat \<times> nat) \<times> grouping_files" where
  "countRouteInfoAtNode sg splitgroups node gf =
     ebind (efold (countCommodity splitgroups) (RepCommodities (gTopo sg)) (0, 0)) (\<lambda>cnt.
       Inr (cnt, gf\<lparr>CountRouteInfo := (CountRouteInfo gf)(node \<mapsto> cnt)\<rparr>))"

definition groupSolutionAtNode :: "solution_grouping \<Rightarrow> files \<Rightarrow> nat \<Rightarrow> grouping_files
    \<Rightarrow> py_error + grouping_files" where
  "groupSolutionAtNode sg fs node gf =
     ebind (efold (groupCommodity sg fs node) (RepCommodities (gTopo sg)) []) (\<lambda>splitgroups.
     ebind (countRouteInfoAtNode sg splitgroups node
              (gf\<lparr>SplitGroupsAtNodes := (SplitGroupsAtNodes gf)(node \<mapsto> splitgroups)\<rparr>))
       (\<lambda>(cnt, gf'). Inr gf'))"

text \<open>
  \<open>getCountInfoAtNode(node)[1] / getCountInfoAtNode(node)[0]\<close>, and the list of these
  ratios that \<open>getStatCountInfo\<close> prints the minimum, maximum and mean of.
\<close>

definition compactionRatio :: "grouping_files \<Rightarrow> nat \<Rightarrow> py_error + real" where
  "compactionRatio gf node =
     (case CountRouteInfo gf node of
        None \<Rightarrow> Inl FileNotFoundError
      | Some (cntall, cntcpt) \<Rightarrow>
          if cntall = 0 then Inl ZeroDivisionError else Inr (real cntcpt / real cntall))"

fun ratios :: "grouping_files \<Rightarrow> nat list \<Rightarrow> py_error + real list" where
  "ratios gf [] = Inr []"
| "ratios gf (node # nodes) =
     (case compactionRatio gf node of
        Inl e \<Rightarrow> Inl e
      | Inr r \<Rightarrow> (case ratios gf nodes of Inl e \<Rightarrow> Inl e | Inr rs \<Rightarrow> Inr (r # rs)))"

definition getStatCountInfo :: "solution_grouping \<Rightarrow> grouping_files
    \<Rightarrow> py_error + real \<times> real \<times> real" where
  "getStatCountInfo sg gf =
     ebind (ratios gf (AllNodes (gTopo sg))) (\<lambda>ratio.
       case ratio of
         [] \<Rightarrow> Inl ValueError
       | r # rs \<Rightarrow> Inr (fold min rs r, fold max rs r, sum_list ratio / real (length ratio)))"

text \<open>Invariants of the grouping and counting loops.\<close>

definition groups_nonempty :: "('k \<times> 'a list) list \<Rightarrow> bool" where
  "groups_nonempty cs \<longleftrightarrow> (\<forall>k g. map_of cs k = Some g \<longrightarrow> g \<noteq> [])"

definition counts_ok :: "nat \<times> nat \<Rightarrow> bool" where
  "counts_ok cnt \<longleftrightarrow> snd cnt \<le> fst cnt \<and> (snd cnt = 0 \<longleftrightarrow> fst cnt = 0)"

section \<open>Orbits of auxiliary indices and link signatures\<close>

text \<open>
  \<open>s.add(x)\<close> on a set kept as a list, and \<open>s.pop()\<close>, which removes and returns an
  arbitrary element: which one is decided by the parameter \<open>pick\<close>, read as an index into
  the elements (modulo their number). Every statement about a traversal holds for every
  \<open>pick\<close>.
\<close>

definition set_add :: "'a \<Rightarrow> 'a list \<Rightarrow> 'a list" where
  "set_add x xs = (if x \<in> set xs then xs else xs @ [x])"

definition pop :: "('a list \<Rightarrow> nat) \<Rightarrow> 'a list \<Rightarrow> 'a \<times> 'a list" where
  "pop pick xs = (let i = pick xs mod length xs in (xs ! i, take i xs @ drop (Suc i) xs))"

text \<open>The loop \<open>for autmap in self.Autgen\<close> in the traversal of the auxiliary indices.\<close>

fun auxNext :: "nat list list \<Rightarrow> nat list \<Rightarrow> nat list list \<Rightarrow> nat list list
    \<Rightarrow> py_error + nat list list" where
  "auxNext [] aux visited tovisit = Inr tovisit"
| "auxNext (autmap # gens) aux visited tovisit =
     (case applyGenerator aux autmap of
        Inl e \<Rightarrow> Inl e
      | Inr aaux \<Rightarrow>
          auxNext gens aux visited
            (if aaux \<in> set visited then tovisit else set_add aaux tovisit))"

text \<open>
  The loop \<open>while len(tovisit) > 0\<close>; the result is \<open>None\<close> when the loop does not end.
\<close>

partial_function (option) auxOrbit :: "(nat list list \<Rightarrow> nat) \<Rightarrow> nat list list
    \<Rightarrow> nat list list \<Rightarrow> nat list list \<Rightarrow> nat list list
    \<Rightarrow> (py_error + nat list list \<times> nat list list) option" where
  "auxOrbit pick gens tovisit autauxs visited =
     (if length tovisit > 0 then
        (case pop pick tovisit of
           (aux, tovisit1) \<Rightarrow>
             (case auxNext gens aux (set_add aux visited) tovisit1 of
                Inl e \<Rightarrow> Some (Inl e)
              | Inr tovisit2 \<Rightarrow>
                  auxOrbit pick gens tovisit2 (set_add aux autauxs) (set_add aux visited)))
      else Some (Inr (autauxs, visited)))"

text \<open>
  The loop \<open>for repaux in auxindice\<close>; its state is \<open>visited\<close>, \<open>repauxs\<close> and the
  \<open>AuxiliaryGroup\<close> files (\<open>tovisit\<close> is empty between two iterations).
\<close>

fun auxLoop :: "(nat list list \<Rightarrow> nat) \<Rightarrow> nat list list \<Rightarrow> nat list list
    \<Rightarrow> nat list list \<times> nat list list \<times> (nat list \<rightharpoonup> nat list list)
    \<Rightarrow> (py_error + nat list list \<times> nat list list \<times> (nat list \<rightharpoonup> nat list list)) option"
  where
  "auxLoop pick gens [] st = Some (Inr st)"
| "auxLoop pick gens (repaux # rest) st =
     (case st of (visited, repauxs, grp) \<Rightarrow>
        if repaux \<in> set visited then auxLoop pick gens rest st
        else
          (case auxOrbit pick gens (set_add repaux []) [] visited of
             None \<Rightarrow> None
           | Some (Inl e) \<Rightarrow> Some (Inl e)
           | Some (Inr (autauxs, visited')) \<Rightarrow>
               auxLoop pick gens rest
                 (visited', set_add repaux repauxs, grp(repaux \<mapsto> autauxs))))"

text \<open>
  \<open>[(u, i, j) for u in self.HostNodes for (i, j) in self.DLinks]\<close>, where unpacking a
  link that is not a pair raises.
\<close>

definition auxindice :: "topology \<Rightarrow> py_error + nat list list" where
  "auxindice T =
     (if HostNodes T \<noteq> [] \<and> (\<exists>l \<in> set (DLinks T). length l \<noteq> 2) then Inl ValueError
      else Inr (sort (concat (map (\<lambda>u. map (\<lambda>l. u # l) (DLinks T)) (HostNodes T)))))"

text \<open>
  \<open>findRepresentativeAuxs\<close>: when the stage file exists, the representatives are
  loaded from it and no orbit file is written; otherwise they are computed, the orbit of
  each is saved, and the stage file is written.
\<close>

definition findRepresentativeAuxs :: "(nat list list \<Rightarrow> nat) \<Rightarrow> topology \<Rightarrow> files
    \<Rightarrow> (py_error + topology \<times> files) option" where
  "findRepresentativeAuxs pick T fs =
     (case Stage fs ''findRepresentativeAuxs'' of
        Some stagedata \<Rightarrow> Some (Inr (T\<lparr>RepAuxiliarys := stagedata\<rparr>, fs))
      | None \<Rightarrow>
          (case auxindice T of
             Inl e \<Rightarrow> Some (Inl e)
           | Inr idx \<Rightarrow>
               (case auxLoop pick (Autgen T) idx ([], [], AuxiliaryGroup fs) of
                  None \<Rightarrow> None
                | Some (Inl e) \<Rightarrow> Some (Inl e)
                | Some (Inr (visited, repauxs, grp)) \<Rightarrow>
                    Some (Inr (T\<lparr>RepAuxiliarys := repauxs\<rparr>,
                      fs\<lparr>AuxiliaryGroup := grp,
                         Stage := (Stage fs)(''findRepresentativeAuxs'' \<mapsto> repauxs)\<rparr>)))))"

text \<open>\<open>computeAuxReverseMap\<close>: the loop over one orbit, over the orbits, and over the hosts.\<close>

definition auxToRepMember :: "nat \<Rightarrow> nat list \<Rightarrow> nat list \<Rightarrow> (nat list \<rightharpoonup> nat list)
    \<Rightarrow> py_error + (nat list \<rightharpoonup> nat list)" where
  "auxToRepMember u repaux aux auxtorep =
     (case aux of
        [n, i, j] \<Rightarrow> if n \<noteq> u then Inr auxtorep else Inr (auxtorep([i, j] \<mapsto> repaux))
      | _ \<Rightarrow> Inl ValueError)"

definition auxToRepGroup :: "files \<Rightarrow> nat \<Rightarrow> nat list \<Rightarrow> (nat list \<rightharpoonup> nat list)
    \<Rightarrow> py_error + (nat list \<rightharpoonup> nat list)" where
  "auxToRepGroup fs u repaux auxtorep =
     (case AuxiliaryGroup fs repaux of
        None \<Rightarrow> Inl FileNotFoundError
      | Some autauxs \<Rightarrow> efold (auxToRepMember u repaux) autauxs auxtorep)"

definition auxToRepHost :: "topology \<Rightarrow> nat \<Rightarrow> files \<Rightarrow> py_error + files" where
  "auxToRepHost T u fs =
     (case efold (auxToRepGroup fs u) (RepAuxiliarys T) Map.empty of
        Inl e \<Rightarrow> Inl e
      | Inr auxtorep \<Rightarrow> Inr (fs\<lparr>AuxToRep := (AuxToRep fs)(u \<mapsto> auxtorep)\<rparr>))"

definition computeAuxReverseMap :: "topology \<Rightarrow> files \<Rightarrow> py_error + files" where
  "computeAuxReverseMap T fs = efold (auxToRepHost T) (HostNodes T) fs"

text \<open>
  \<open>encodeLinkConstraint\<close>. The dict \<open>count\<close> has the keys \<open>('b', auxidx)\<close> and
  \<open>('g', auxidx)\<close>, in insertion order; \<open>count[k] += 1\<close> raises on a missing key.
\<close>

datatype tag = Beta | Gamma

type_synonym counts = "((tag \<times> nat list) \<times> nat) list"

definition initCount :: "nat list list \<Rightarrow> counts" where
  "initCount reps =
     fold (\<lambda>auxidx cnt. AList.update (Gamma, auxidx) 0 (AList.update (Beta, auxidx) 0 cnt))
       reps []"

definition increment :: "tag \<times> nat list \<Rightarrow> counts \<Rightarrow> py_error + counts" where
  "increment k cnt =
     (case map_of cnt k of
        None \<Rightarrow> Inl KeyError
      | Some c \<Rightarrow> Inr (AList.update k (c + 1) cnt))"

text \<open>\<open>self.loadAuxToRep(u)[link]\<close>\<close>

definition auxToRepLookup :: "files \<Rightarrow> nat \<Rightarrow> nat list \<Rightarrow> py_error + nat list" where
  "auxToRepLookup fs u link =
     (case AuxToRep fs u of
        None \<Rightarrow> Inl FileNotFoundError
      | Some auxtorep \<Rightarrow> (case auxtorep link of None \<Rightarrow> Inl KeyError | Some auxidx \<Rightarrow> Inr auxidx))"

definition countHost :: "files \<Rightarrow> nat list \<Rightarrow> nat \<Rightarrow> counts \<Rightarrow> py_error + counts" where
  "countHost fs link u cnt =
     (case auxToRepLookup fs u link of
        Inl e \<Rightarrow> Inl e
      | Inr auxidx \<Rightarrow>
          (case increment (Beta, auxidx) cnt of
             Inl e \<Rightarrow> Inl e
           | Inr cnt1 \<Rightarrow> increment (Gamma, auxidx) cnt1))"

definition linkCounts :: "topology \<Rightarrow> files \<Rightarrow> nat list \<Rightarrow> py_error + counts" where
  "linkCounts T fs link = efold (countHost fs link) (HostNodes T) (initCount (RepAuxiliarys T))"

definition encodeLinkConstraint :: "topology \<Rightarrow> files \<Rightarrow> nat list
    \<Rightarrow> py_error + nat list \<times> nat list" where
  "encodeLinkConstraint T fs link =
     (case linkCounts T fs link of
        Inl e \<Rightarrow> Inl e
      | Inr cnt \<Rightarrow> Inr (link, map snd cnt))"

text \<open>
  Well-formed input: every generator is a list of \<open>N\<close> node identifiers below \<open>N\<close>
  (\<open>gens_in_range\<close>), and moreover a permutation (\<open>gens_perm\<close>); a tuple is in range
  when its nodes are below \<open>N\<close>.
\<close>

definition gens_in_range :: "nat \<Rightarrow> nat list list \<Rightarrow> bool" where
  "gens_in_range N gens \<longleftrightarrow> (\<forall>g \<in> set gens. length g = N \<and> (\<forall>n \<in> set g. n < N))"

definition gens_perm :: "nat \<Rightarrow> nat list list \<Rightarrow> bool" where
  "gens_perm N gens \<longleftrightarrow> gens_in_range N gens \<and> (\<forall>g \<in> set gens. distinct g)"

definition in_range :: "nat \<Rightarrow> nat list \<Rightarrow> bool" where
  "in_range N xs \<longleftrightarrow> (\<forall>n \<in> set xs. n < N)"

definition act :: "nat list \<Rightarrow> nat list \<Rightarrow> nat list" where
  "act g xs = map ((!) g) xs"

definition tuples :: "nat \<Rightarrow> nat \<Rightarrow> nat list set" where
  "tuples N k = {xs. length xs = k \<and> in_range N xs}"

definition orbitInv :: "nat \<Rightarrow> nat \<Rightarrow> nat list list \<Rightarrow> nat list set \<Rightarrow> nat list list
    \<Rightarrow> (nat list \<rightharpoonup> nat list list) \<Rightarrow> bool" where
  "orbitInv N k gens V R G \<longleftrightarrow>
     V \<subseteq> tuples N k \<and> distinct R
   \<and> (\<forall>r \<in> set R. \<exists>A. G r = Some A \<and> r \<in> set A \<and> set A \<subseteq> V)
   \<and> (\<forall>x \<in> V. \<exists>r \<in> set R. \<exists>A. G r = Some A \<and> x \<in> set A)
   \<and> (\<forall>r \<in> set R. \<forall>r' \<in> set R. \<forall>A A'. G r = Some A \<and> G r' = Some A' \<and> r \<noteq> r'
         \<longrightarrow> set A \<inter> set A' = {})
   \<and> (\<forall>x \<in> V. \<forall>g \<in> set gens. act g x \<in> V)
   \<and> (gens_perm N gens \<longrightarrow>
        (\<forall>r \<in> set R. \<forall>A. G r = Some A \<longrightarrow> (\<forall>x \<in> set A. \<forall>g \<in> set gens. act g x \<in> set A)))"

text \<open>
  The number of hosts whose auxiliary class on a link is a given representative, and the
  shape of the dict \<open>count\<close>: the keys \<open>('b', a)\<close> and \<open>('g', a)\<close> for every
  representative \<open>a\<close> in turn.
\<close>

definition hostCount :: "topology \<Rightarrow> files \<Rightarrow> nat list \<Rightarrow> nat list \<Rightarrow> nat" where
  "hostCount T fs link a =
     length (filter (\<lambda>u. auxToRepLookup fs u link = Inr a) (HostNodes T))"

definition countsOf :: "(nat list \<Rightarrow> nat) \<Rightarrow> (nat list \<Rightarrow> nat) \<Rightarrow> nat list list \<Rightarrow> counts" where
  "countsOf cb cg reps = concat (map (\<lambda>a. [((Beta, a), cb a), ((Gamma, a), cg a)]) reps)"

text \<open>
  \<open>UG.number_of_nodes()\<close>, and a topology whose generators, hosts and directed links
  stay within the node identifiers \<open>0..N-1\<close>.
\<close>

definition number_of_nodes :: "topology \<Rightarrow> nat" where
  "number_of_nodes T = length (UG_nodes T)"

definition topology_in_range :: "topology \<Rightarrow> bool" where
  "topology_in_range T \<longleftrightarrow>
     gens_in_range (number_of_nodes T) (Autgen T)
   \<and> (\<forall>u \<in> set (HostNodes T). u < number_of_nodes T)
   \<and> (\<forall>l \<in> set (DLinks T). length l = 2 \<and> in_range (number_of_nodes T) l)"

text \<open>
  Two tuples are in the same orbit when one is reached from the other by applying
  generators and their inverses.
\<close>

inductive same_orbit :: "nat list list \<Rightarrow> nat list \<Rightarrow> nat list \<Rightarrow> bool" for gens where
  same_orbit_refl: "same_orbit gens x x"
| same_orbit_fwd: "same_orbit gens x y \<Longrightarrow> g \<in> set gens \<Longrightarrow> applyGenerator y g = Inr z
     \<Longrightarrow> same_orbit gens x z"
| same_orbit_bwd: "same_orbit gens x z \<Longrightarrow> g \<in> set gens \<Longrightarrow> applyGenerator y g = Inr z
     \<Longrightarrow> same_orbit gens x y"

text \<open>
  The generators are automorphisms of the topology: permutations of the nodes that map
  hosts to hosts and directed links to directed links.
\<close>

definition automorphic :: "topology \<Rightarrow> bool" where
  "automorphic T \<longleftrightarrow>
     topology_in_range T \<and> gens_perm (number_of_nodes T) (Autgen T)
   \<and> distinct (HostNodes T)
   \<and> (\<forall>g \<in> set (Autgen T).
         (\<forall>u \<in> set (HostNodes T). g ! u \<in> set (HostNodes T))
       \<and> (\<forall>l \<in> set (DLinks T). act g l \<in> set (DLinks T)))"

section \<open>Optimization: the variables and the auxiliary constraints\<close>

text \<open>
  \<open>createVariables\<close>. A variable stands for its name. The flow variable of a
  representative commodity and a link needs the link's capacity and the names
  \<open>repsd[0]\<close>, \<open>repsd[1]\<close>; the name of an auxiliary variable is formatted from the first
  three entries of the index.
\<close>

definition createFlowVar :: "topology \<Rightarrow> nat list \<Rightarrow> nat list \<Rightarrow> (nat list \<rightharpoonup> lpvar)
    \<Rightarrow> py_error + (nat list \<rightharpoonup> lpvar)" where
  "createFlowVar T repsd repflowlink Fr =
     ebind (capacity T repflowlink) (\<lambda>linkcap.
       if length repsd < 2 then Inl IndexError
       else Inr (Fr(repflowlink \<mapsto> F_var repsd repflowlink)))"

definition createFlowVars :: "topology \<Rightarrow> nat list
    \<Rightarrow> (nat list \<rightharpoonup> (nat list \<rightharpoonup> lpvar)) \<Rightarrow> py_error + (nat list \<rightharpoonup> (nat list \<rightharpoonup> lpvar))"
  where
  "createFlowVars T repsd Fm =
     (case RepCommFlowLinks T repsd of
        None \<Rightarrow> Inl KeyError
      | Some links \<Rightarrow>
          ebind (efold (createFlowVar T repsd) links Map.empty) (\<lambda>Fr. Inr (Fm(repsd \<mapsto> Fr))))"

definition createAuxVar :: "(nat list \<Rightarrow> lpvar) \<Rightarrow> nat list \<Rightarrow> (nat list \<rightharpoonup> lpvar)
    \<Rightarrow> py_error + (nat list \<rightharpoonup> lpvar)" where
  "createAuxVar mk repaux Bm =
     (if length repaux < 3 then Inl IndexError else Inr (Bm(repaux \<mapsto> mk repaux)))"

definition createVariables :: "optimization \<Rightarrow> py_error + optimization" where
  "createVariables opt =
     ebind (efold (createFlowVars (Topo opt)) (RepCommodities (Topo opt)) Map.empty) (\<lambda>Fm.
     ebind (efold (createAuxVar B_var) (RepAuxiliarys (Topo opt)) Map.empty) (\<lambda>Bm.
     ebind (efold (createAuxVar G_var) (RepAuxiliarys (Topo opt)) Map.empty) (\<lambda>Gm.
       Inr (opt\<lparr>F := Fm, opt_B := Bm, opt_G := Gm\<rparr>))))"

text \<open>
  The constraints of \<open>setAuxThroughputConstraint\<close> and \<open>setAuxFlowConstraint\<close>. Their
  left sides have coefficients, so they are kept apart from the flow conservation
  constraints: a left side is the list of its terms \<open>coefficient * variable\<close> in the order
  they are added, and the right side is \<open>R\<close> or 0. Each function returns the constraints
  it adds to the model, in order.
\<close>

datatype auxname = AUXTC nat nat | AUXFC "nat list"

record auxconstr =
  ac_name :: auxname
  ac_lhs :: "(real \<times> lpvar) list"
  ac_rhs :: "lpvar option"

text \<open>\<open>Topo.UG.nodes[u]['numServer']\<close>\<close>

definition numServer :: "topology \<Rightarrow> nat \<Rightarrow> py_error + nat" where
  "numServer T u =
     (case map_of (UG_nodes T) u of None \<Rightarrow> Inl KeyError | Some (n, routing) \<Rightarrow> Inr n)"

text \<open>The body of \<open>for u in Topo.HostNodes\<close> in \<open>setAuxThroughputConstraint\<close>.\<close>

definition auxtcHost :: "optimization \<Rightarrow> files \<Rightarrow> nat \<Rightarrow> nat \<Rightarrow> nat \<Rightarrow> (real \<times> lpvar) list
    \<Rightarrow> py_error + (real \<times> lpvar) list" where
  "auxtcHost opt fs i j u lhs =
     ebind (auxToRepLookup fs u [i, j]) (\<lambda>auxidx.
     ebind (numServer (Topo opt) u) (\<lambda>n.
       case opt_B opt auxidx of
         None \<Rightarrow> Inl KeyError
       | Some b \<Rightarrow>
           (case opt_G opt auxidx of
              None \<Rightarrow> Inl KeyError
            | Some g \<Rightarrow> Inr (lhs @ [(real n, b), (real n, g)]))))"

definition auxtcLink :: "optimization \<Rightarrow> files \<Rightarrow> nat list \<Rightarrow> auxconstr list
    \<Rightarrow> py_error + auxconstr list" where
  "auxtcLink opt fs link cs =
     (case link of
        [i, j] \<Rightarrow>
          ebind (efold (auxtcHost opt fs i j) (HostNodes (Topo opt)) []) (\<lambda>lhs.
            Inr (cs @ [\<lparr>ac_name = AUXTC i j, ac_lhs = lhs, ac_rhs = Some R_var\<rparr>]))
      | _ \<Rightarrow> Inl ValueError)"

definition setAuxThroughputConstraint :: "optimization \<Rightarrow> files \<Rightarrow> py_error + auxconstr list"
  where
  "setAuxThroughputConstraint opt fs =
     efold (auxtcLink opt fs) (RepLinkConstrs (Topo opt)) []"

text \<open>
  The body of the inner loop of \<open>setAuxFlowConstraint\<close>: the constraint
  \<open>F[repsd][repflowlink]/linkcap - B[bauxidx] - G[gauxidx] <= 0\<close>, named from the first
  four of the entries of \<open>repsd\<close> and \<open>repflowlink\<close>.
\<close>

definition auxfcLink :: "optimization \<Rightarrow> files \<Rightarrow> nat list \<Rightarrow> nat list \<Rightarrow> auxconstr list
    \<Rightarrow> py_error + auxconstr list" where
  "auxfcLink opt fs repsd repflowlink cs =
     ebind (capacity (Topo opt) repflowlink) (\<lambda>linkcap.
     ebind (getitem repsd 0) (\<lambda>s.
     ebind (auxToRepLookup fs s repflowlink) (\<lambda>bauxidx.
     ebind (getitem repsd 1) (\<lambda>d.
     ebind (auxToRepLookup fs d repflowlink) (\<lambda>gauxidx.
       case F opt repsd of
         None \<Rightarrow> Inl KeyError
       | Some Fr \<Rightarrow>
           (case Fr repflowlink of
              None \<Rightarrow> Inl KeyError
            | Some f \<Rightarrow>
                if linkcap = 0 then Inl ZeroDivisionError
                else
                  (case opt_B opt bauxidx of
                     None \<Rightarrow> Inl KeyError
                   | Some b \<Rightarrow>
                       (case opt_G opt gauxidx of
                          None \<Rightarrow> Inl KeyError
                        | Some g \<Rightarrow>
                            if length (repsd @ repflowlink) < 4 then Inl IndexError
                            else Inr (cs @ [\<lparr>ac_name = AUXFC (take 4 (repsd @ repflowlink)),
                                   ac_lhs = [(1 / linkcap, f), (- 1, b), (- 1, g)],
                                   ac_rhs = None\<rparr>])))))))))"

definition auxfcCommodity :: "optimization \<Rightarrow> files \<Rightarrow> nat list \<Rightarrow> auxconstr list
    \<Rightarrow> py_error + auxconstr list" where
  "auxfcCommodity opt fs repsd cs =
     (case RepCommFlowLinks (Topo opt) repsd of
        None \<Rightarrow> Inl KeyError
      | Some links \<Rightarrow> efold (auxfcLink opt fs repsd) links cs)"

definition setAuxFlowConstraint :: "optimization \<Rightarrow> files \<Rightarrow> py_error + auxconstr list" where
  "setAuxFlowConstraint opt fs =
     efold (auxfcCommodity opt fs) (RepCommodities (Topo opt)) []"

text \<open>
  The representative sets lie in their domains, as the stages that compute them leave
  them: a representative link constraint is a directed link; a representative commodity
  is a pair of hosts and its flow links are directed links; and the graph has every host
  as a node and an edge of nonzero capacity under every directed link.
\<close>

definition representatives_ok :: "topology \<Rightarrow> bool" where
  "representatives_ok T \<longleftrightarrow>
     (\<forall>l \<in> set (RepLinkConstrs T). l \<in> set (DLinks T))
   \<and> (\<forall>repsd \<in> set (RepCommodities T).
         length repsd = 2 \<and> (\<forall>n \<in> set repsd. n \<in> set (HostNodes T))
       \<and> (case RepCommFlowLinks T repsd of
             None \<Rightarrow> False
           | Some links \<Rightarrow> \<forall>l \<in> set links. l \<in> set (DLinks T)))
   \<and> (\<forall>u \<in> set (HostNodes T). u \<in> fst ` set (UG_nodes T))
   \<and> (\<forall>l \<in> set (DLinks T). case capacity T l of Inl e \<Rightarrow> False | Inr c \<Rightarrow> c \<noteq> 0)"

section \<open>Representative link constraints\<close>







section \<open>A two-node topology\<close>

text \<open>
  Two hosts joined by one link of capacity 1; the only generator swaps them.
\<close>

definition ex_topo :: topology where
  "ex_topo = \<lparr>UG_nodes = [(0, 1, True), (1, 1, True)], UG_edges = [((0, 1), 1)],
     AllNodes = [0, 1], HostNodes = [0, 1], Commodities = [[0, 1], [1, 0]],
     DLinks = [[0, 1], [1, 0]], Autgen = [[1, 0]], RepCommodities = [[0, 1]],
     RepCommFlowLinks = [[0, 1] \<mapsto> [[0, 1], [1, 0]]],
     RepAuxiliarys = [[0, 0, 1], [0, 1, 0]], RepLinkConstrs = [[0, 1]]\<rparr>"

definition ex_files :: files where
  "ex_files = \<lparr>CommodityGroup = [[0, 1] \<mapsto> [[0, 1], [1, 0]]],
     AutomorphicMap_Forward = [[0, 1] \<mapsto> [0, 1], [1, 0] \<mapsto> [1, 0]],
     AutomorphicMap_Reverse = [[0, 1] \<mapsto> [Some 0, Some 1], [1, 0] \<mapsto> [Some 1, Some 0]],
     FlowLinkMap = [[0, 1] \<mapsto> [[0, 1] \<mapsto> [0, 1], [1, 0] \<mapsto> [1, 0]]],
     AuxiliaryGroup = [[0, 0, 1] \<mapsto> [[0, 0, 1], [1, 1, 0]], [0, 1, 0] \<mapsto> [[0, 1, 0], [1, 0, 1]]],
     AuxToRep = [0 \<mapsto> [[0, 1] \<mapsto> [0, 0, 1], [1, 0] \<mapsto> [0, 1, 0]],
                 1 \<mapsto> [[1, 0] \<mapsto> [0, 0, 1], [0, 1] \<mapsto> [0, 1, 0]]],
     Stage = [''findRepresentativeAuxs'' \<mapsto> [[0, 0, 1], [0, 1, 0]]]\<rparr>"

text \<open>The same files before the auxiliary orbits are computed.\<close>

definition ex_files_fresh :: files where
  "ex_files_fresh = ex_files\<lparr>AuxiliaryGroup := Map.empty, AuxToRep := Map.empty,
     Stage := Map.empty\<rparr>"

definition ex_opt :: optimization where
  "ex_opt = \<lparr>Topo = ex_topo,
     M = \<lparr>constrs = [], status = TIME_LIMIT, ObjVal = 1,
          X = (\<lambda>v. if v = F_var [0, 1] [0, 1] then 1 else 0)\<rparr>,
     F = [[0, 1] \<mapsto> [[0, 1] \<mapsto> F_var [0, 1] [0, 1], [1, 0] \<mapsto> F_var [0, 1] [1, 0]]],
     opt_B = [[0, 0, 1] \<mapsto> B_var [0, 0, 1], [0, 1, 0] \<mapsto> B_var [0, 1, 0]],
     opt_G = [[0, 0, 1] \<mapsto> G_var [0, 0, 1], [0, 1, 0] \<mapsto> G_var [0, 1, 0]]\<rparr>"

definition ex_ver :: verification where
  "ex_ver = \<lparr>vTopo = ex_topo, intermediate = False\<rparr>"

text \<open>A solver answer: the worst-case load LP of every link has objective value 2.\<close>

definition ex_findMaxLinkLoad :: "nat list \<Rightarrow> py_error + real" where
  "ex_findMaxLinkLoad link = Inr 2"

text \<open>
  A three-node topology: hosts 0 and 1 joined by a link, and a switch 2 without servers
  hanging off host 1. No automorphism but the identity exists, so there is no generator
  and every orbit is a singleton. The routing sends commodity \<open>(0, 1)\<close> over the link
  \<open>(0, 1)\<close> and \<open>(1, 0)\<close> over \<open>(1, 0)\<close>; the constraints of the linear program force
  the flow on the links at node 2 to be zero, so those edges carry no entry.
\<close>

definition ex3_topo :: topology where
  "ex3_topo = \<lparr>UG_nodes = [(0, 1, True), (1, 1, True), (2, 0, True)],
     UG_edges = [((0, 1), 1), ((1, 2), 1)],
     AllNodes = [0, 1, 2], HostNodes = [0, 1], Commodities = [[0, 1], [1, 0]],
     DLinks = [[0, 1], [1, 2], [1, 0], [2, 1]], Autgen = [],
     RepCommodities = [[0, 1], [1, 0]],
     RepCommFlowLinks = [[0, 1] \<mapsto> [[0, 1], [1, 0], [1, 2], [2, 1]],
                         [1, 0] \<mapsto> [[0, 1], [1, 0], [1, 2], [2, 1]]],
     RepAuxiliarys = [[0, 0, 1], [0, 1, 0], [0, 1, 2], [0, 2, 1],
                      [1, 0, 1], [1, 1, 0], [1, 1, 2], [1, 2, 1]],
     RepLinkConstrs = [[0, 1], [1, 2], [1, 0], [2, 1]]\<rparr>"

definition ex3_files :: files where
  "ex3_files = \<lparr>CommodityGroup = [[0, 1] \<mapsto> [[0, 1]], [1, 0] \<mapsto> [[1, 0]]],
     AutomorphicMap_Forward = [[0, 1] \<mapsto> [0, 1, 2], [1, 0] \<mapsto> [0, 1, 2]],
     AutomorphicMap_Reverse = [[0, 1] \<mapsto> [Some 0, Some 1, Some 2],
                               [1, 0] \<mapsto> [Some 0, Some 1, Some 2]],
     FlowLinkMap = [[0, 1] \<mapsto> [[0, 1] \<mapsto> [0, 1], [1, 0] \<mapsto> [1, 0],
                                     [1, 2] \<mapsto> [1, 2], [2, 1] \<mapsto> [2, 1]],
                    [1, 0] \<mapsto> [[0, 1] \<mapsto> [0, 1], [1, 0] \<mapsto> [1, 0],
                                     [1, 2] \<mapsto> [1, 2], [2, 1] \<mapsto> [2, 1]]],
     AuxiliaryGroup = Map.empty, AuxToRep = Map.empty, Stage = Map.empty\<rparr>"

definition ex3_grouping :: solution_grouping where
  "ex3_grouping = \<lparr>gTopo = ex3_topo,
     Route = \<lparr>dg_nodes = [0, 1, 2],
       dg_adj = [(0, 1) \<mapsto> [[0, 1] \<mapsto> 1], (1, 0) \<mapsto> [[1, 0] \<mapsto> 1],
                 (1, 2) \<mapsto> Map.empty, (2, 1) \<mapsto> Map.empty]\<rparr>\<rparr>"

definition ex3_node1_files :: grouping_files where
  "ex3_node1_files =
     \<lparr>SplitGroupsAtNodes = [1 \<mapsto> [([0, 1], [([], [[0, 1]])]),
              ([1, 0], [([([1, 0], [1, 0], 1)], [[1, 0]])])]],
      CountRouteInfo = [1 \<mapsto> (1, 1)]\<rparr>"

definition ex3_node2_files :: grouping_files where
  "ex3_node2_files =
     \<lparr>SplitGroupsAtNodes = [2 \<mapsto> [([0, 1], [([], [[0, 1]])]), ([1, 0], [([], [[1, 0]])])]],
      CountRouteInfo = [2 \<mapsto> (0, 0)]\<rparr>"

definition no_grouping_files :: grouping_files where
  "no_grouping_files = \<lparr>SplitGroupsAtNodes = Map.empty, CountRouteInfo = Map.empty\<rparr>"

text \<open>A \<open>pop\<close> that always returns the first element.\<close>

definition pick0 :: "nat list list \<Rightarrow> nat" where
  "pick0 xs = 0"

section \<open>Properties\<close>

subsection \<open>The solver's time limit\<close>

lemma saveIntermediateRouting_raises:
  "\<exists>e out'. saveIntermediateRouting opt fs out = (Inl e, out')
     \<and> out' ''IntermediateSolution'' = out ''IntermediateSolution''"
  by (simp add: saveIntermediateRouting_def saveIntermediateRouting_name_M_def Let_def
      split: sum.splits)

lemma computeOptimalSolution_time_limit_raises:
  assumes "status (M opt) = TIME_LIMIT"
  shows "\<exists>e out'. computeOptimalSolution opt fs out = (Inl e, out')
     \<and> out' ''IntermediateSolution'' = out ''IntermediateSolution''"
  using assms saveIntermediateRouting_raises [of opt fs out]
  by (auto simp: computeOptimalSolution_def)

lemma ex_buildRouting:
  "buildRouting ex_opt ex_files = Inr \<lparr>dg_nodes = [0, 1],
      dg_adj = [(1, 0) \<mapsto> Map.empty, (0, 1) \<mapsto> [[0, 1] \<mapsto> 1]]\<rparr>"
  by (simp add: buildRouting_def routeEdge_def routeCommodity_def flowX_def flowVar_def set_flow_def
      add_edge_def add_node_def ebind_def ex_opt_def ex_topo_def ex_files_def Let_def)

text \<open>
  Claim C2. On a time-limit status the partial assignment should be persisted as
  \<open>IntermediateRouting\<close> and \<open>IntermediateSolution\<close> and \<open>computeOptimalSolution\<close>
  should return \<open>None\<close>. On the two-node topology the code writes
  \<open>IntermediateRouting\<close>, then raises \<open>NameError\<close> at \<open>M.getVars()\<close>:
  \<open>IntermediateSolution\<close> is not written and nothing is returned. By
  \<open>computeOptimalSolution_time_limit_raises\<close> this is so on every input.
\<close>

theorem computeOptimalSolution_time_limit_NameError:
  "computeOptimalSolution ex_opt ex_files Map.empty =
     (Inl NameError, [''IntermediateRouting'' \<mapsto> Routing \<lparr>dg_nodes = [0, 1],
        dg_adj = [(1, 0) \<mapsto> Map.empty, (0, 1) \<mapsto> [[0, 1] \<mapsto> 1]]\<rparr>])"
  by (simp add: computeOptimalSolution_def saveIntermediateRouting_def
      saveIntermediateRouting_name_M_def ex_buildRouting)
    (simp add: ex_opt_def)

subsection \<open>Which links are verified\<close>

lemma efold_linkLoadStep_calls:
  "efold (linkLoadStep T f) ls (ll, cs) = Inr (ll', cs') \<Longrightarrow> cs' = cs @ ls"
proof (induction ls arbitrary: ll cs)
  case Nil
  then show ?case by simp
next
  case (Cons l ls)
  from Cons.prems obtain ll1 cs1 where
    step: "linkLoadStep T f l (ll, cs) = Inr (ll1, cs1)"
    and rest: "efold (linkLoadStep T f) ls (ll1, cs1) = Inr (ll', cs')"
    by (auto split: sum.splits)
  from step have "cs1 = cs @ [l]"
    by (auto simp: linkLoadStep_def ebind_def split: sum.splits if_splits)
  with Cons.IH [OF rest] show ?case by simp
qed

text \<open>
  Claim C1, as amended. When no \<open>VerifiedThroughput\<close> file exists and
  \<open>verifyAllLinkLoad\<close> returns, \<open>findMaxLinkLoad\<close> has been called once on each
  directed link of the topology, in the order of \<open>Topo.DLinks\<close> (all directed links,
  not only the representative link constraints). When the file exists and holds a
  nonzero number, no link is examined, no file changes and the function returns
  \<open>None\<close>.
\<close>

theorem verifyAllLinkLoad_calls:
  "(out ''VerifiedThroughput'' = None \<and> verifyAllLinkLoad ver f out = Inr (r, calls, out')
      \<longrightarrow> calls = DLinks (vTopo ver))
   \<and> (out ''VerifiedThroughput'' = Some (Throughput t) \<and> t \<noteq> 0
      \<longrightarrow> verifyAllLinkLoad ver f out = Inr (None, [], out))"
  by (auto simp: verifyAllLinkLoad_def ebind_def Let_def split: sum.splits prod.splits if_splits
      dest: efold_linkLoadStep_calls)

lemma ex_verify_fresh:
  "verifyAllLinkLoad ex_ver ex_findMaxLinkLoad Map.empty =
     Inr (Some (2, 1 / 2), [[0, 1], [1, 0]], [''VerifiedThroughput'' \<mapsto> Throughput (1 / 2)])"
  by (simp add: verifyAllLinkLoad_def linkLoadStep_def capacity_def pymax_def ebind_def
      ex_ver_def ex_topo_def ex_findMaxLinkLoad_def Let_def)

lemma ex_verify_cached:
  "verifyAllLinkLoad ex_ver ex_findMaxLinkLoad [''VerifiedThroughput'' \<mapsto> Throughput (1 / 2)]
     = Inr (None, [], [''VerifiedThroughput'' \<mapsto> Throughput (1 / 2)])"
  by (simp add: verifyAllLinkLoad_def)

text \<open>
  Claim C1 as stated fails on the two-node topology: the link \<open>(1, 0)\<close> is examined
  although \<open>(0, 1)\<close> is the only representative link constraint, and with a cached
  value of \<open>1/2\<close> the function returns \<open>None\<close>, not that value.
\<close>

theorem verifyAllLinkLoad_rep_counterexample:
  "verifyAllLinkLoad ex_ver ex_findMaxLinkLoad Map.empty =
     Inr (Some (2, 1 / 2), [[0, 1], [1, 0]], [''VerifiedThroughput'' \<mapsto> Throughput (1 / 2)])
   \<and> [1, 0] \<notin> set (RepLinkConstrs (vTopo ex_ver))
   \<and> verifyAllLinkLoad ex_ver ex_findMaxLinkLoad
         [''VerifiedThroughput'' \<mapsto> Throughput (1 / 2)]
       = Inr (None, [], [''VerifiedThroughput'' \<mapsto> Throughput (1 / 2)])"
  using ex_verify_fresh ex_verify_cached by (simp add: ex_ver_def ex_topo_def)

theorem verifyAllLinkLoad_calls_witness:
  "verifyAllLinkLoad ex_ver ex_findMaxLinkLoad Map.empty =
     Inr (Some (2, 1 / 2), [[0, 1], [1, 0]], [''VerifiedThroughput'' \<mapsto> Throughput (1 / 2)])
   \<and> [[0, 1], [1, 0]] = DLinks (vTopo ex_ver)
   \<and> verifyAllLinkLoad ex_ver ex_findMaxLinkLoad
         [''VerifiedThroughput'' \<mapsto> Throughput (1 / 2)]
       = Inr (None, [], [''VerifiedThroughput'' \<mapsto> Throughput (1 / 2)])"
  using verifyAllLinkLoad_calls [of Map.empty ex_ver ex_findMaxLinkLoad "Some (2, 1 / 2)"
      "[[0, 1], [1, 0]]" "[''VerifiedThroughput'' \<mapsto> Throughput (1 / 2)]" "1 / 2"]
    verifyAllLinkLoad_calls [of "[''VerifiedThroughput'' \<mapsto> Throughput (1 / 2)]" ex_ver
      ex_findMaxLinkLoad None "[]" "[''VerifiedThroughput'' \<mapsto> Throughput (1 / 2)]" "1 / 2"]
    ex_verify_fresh
  by simp

subsection \<open>Flow conservation constraints\<close>

lemma efold_append_list_all2:
  assumes "efold (\<lambda>x cs. ebind (g x) (\<lambda>c. Inr (cs @ [c]))) xs cs0 = Inr cs'"
  shows "\<exists>new. cs' = cs0 @ new \<and> list_all2 (\<lambda>x c. g x = Inr c) xs new"
  using assms
proof (induction xs arbitrary: cs0)
  case Nil
  then show ?case by simp
next
  case (Cons x xs)
  from Cons.prems obtain c where gx: "g x = Inr c"
    and rest: "efold (\<lambda>x cs. ebind (g x) (\<lambda>c. Inr (cs @ [c]))) xs (cs0 @ [c]) = Inr cs'"
    by (auto simp: ebind_def split: sum.splits)
  from Cons.IH [OF rest] obtain new where "cs' = (cs0 @ [c]) @ new"
    and "list_all2 (\<lambda>x c. g x = Inr c) xs new" by blast
  with gx have "cs' = cs0 @ (c # new) \<and> list_all2 (\<lambda>x c. g x = Inr c) (x # xs) (c # new)"
    by simp
  then show ?case by blast
qed

lemma sumFlowVars_list_all2:
  "sumFlowVars opt flowmap repsd ls = Inr vs \<Longrightarrow>
   list_all2 (\<lambda>l v. flowVar opt flowmap repsd l = Inr v) ls vs"
  by (induction ls arbitrary: vs) (auto split: sum.splits)

lemma flowVar_Inr:
  "flowVar opt flowmap repsd l = Inr v \<longleftrightarrow>
   (\<exists>Fr rl. F opt repsd = Some Fr \<and> flowmap l = Some rl \<and> Fr rl = Some v)"
  by (auto simp: flowVar_def split: option.splits)

lemma fcConstr_name: "fcConstr opt flowmap s d n = Inr c \<Longrightarrow> c_name c = FC s d n"
  by (auto simp: fcConstr_def ebind_def split: sum.splits)

lemma fc_filter_other:
  assumes "list_all2 (\<lambda>n c. fcConstr opt flowmap s d n = Inr c) ns new"
    and "(s, d) \<noteq> (s', d') \<or> n' \<notin> set ns"
  shows "filter (\<lambda>c. c_name c = FC s' d' n') new = []"
  using assms
  by (induction ns new rule: list_all2_induct) (auto dest: fcConstr_name)

lemma fc_filter_one:
  assumes "list_all2 (\<lambda>n c. fcConstr opt flowmap s d n = Inr c) ns new"
    and "distinct ns" and "n \<in> set ns"
  shows "\<exists>c. fcConstr opt flowmap s d n = Inr c
           \<and> filter (\<lambda>c. c_name c = FC s d n) new = [c]"
  using assms
proof (induction ns new rule: list_all2_induct)
  case Nil
  then show ?case by simp
next
  case (Cons m ms c cs)
  show ?case
  proof (cases "m = n")
    case True
    with Cons.prems have "n \<notin> set ms" by simp
    with Cons.hyps(2) have "filter (\<lambda>c. c_name c = FC s d n) cs = []"
      by (intro fc_filter_other [where ns = ms]) auto
    with True Cons.hyps(1) show ?thesis by (simp add: fcConstr_name)
  next
    case False
    with Cons.prems have "distinct ms" "n \<in> set ms" by auto
    from Cons.IH [OF this] False Cons.hyps(1) show ?thesis
      by (auto dest: fcConstr_name)
  qed
qed

lemma fcCommodity_result:
  assumes "fcCommodity opt fs repsd cs = Inr cs'"
  shows "\<exists>s d flowmap new. repsd = [s, d] \<and> FlowLinkMap fs repsd = Some flowmap
           \<and> cs' = cs @ new
           \<and> list_all2 (\<lambda>n c. fcConstr opt flowmap s d n = Inr c) (AllNodes (Topo opt)) new"
proof -
  from assms obtain s d flowmap where r: "repsd = [s, d]"
    and fm: "FlowLinkMap fs repsd = Some flowmap"
    and ef: "efold (fcNode opt flowmap s d) (AllNodes (Topo opt)) cs = Inr cs'"
    by (auto simp: fcCommodity_def split: list.splits option.splits)
  have "fcNode opt flowmap s d = (\<lambda>n cs. ebind (fcConstr opt flowmap s d n) (\<lambda>c. Inr (cs @ [c])))"
    by (intro ext) (simp add: fcNode_def)
  with ef efold_append_list_all2 [of "fcConstr opt flowmap s d" "AllNodes (Topo opt)" cs cs']
  obtain new where "cs' = cs @ new"
    "list_all2 (\<lambda>n c. fcConstr opt flowmap s d n = Inr c) (AllNodes (Topo opt)) new"
    by auto
  with r fm show ?thesis by blast
qed

lemma fc_loop_filter:
  assumes "efold (fcCommodity opt fs) reps cs0 = Inr cs'"
    and "distinct (AllNodes (Topo opt))" and "n \<in> set (AllNodes (Topo opt))"
    and "distinct reps"
  shows "if [s, d] \<in> set reps
         then \<exists>flowmap c. FlowLinkMap fs [s, d] = Some flowmap
                \<and> fcConstr opt flowmap s d n = Inr c
                \<and> filter (\<lambda>c. c_name c = FC s d n) cs'
                    = filter (\<lambda>c. c_name c = FC s d n) cs0 @ [c]
         else filter (\<lambda>c. c_name c = FC s d n) cs'
                = filter (\<lambda>c. c_name c = FC s d n) cs0"
  using assms(1,4)
proof (induction reps arbitrary: cs0)
  case Nil
  then show ?case by simp
next
  case (Cons r reps)
  from Cons.prems(1) obtain cs1 where step: "fcCommodity opt fs r cs0 = Inr cs1"
    and rest: "efold (fcCommodity opt fs) reps cs1 = Inr cs'"
    by (auto split: sum.splits)
  from fcCommodity_result [OF step] obtain s1 d1 flowmap new where
    r: "r = [s1, d1]" and fm: "FlowLinkMap fs r = Some flowmap" and cs1: "cs1 = cs0 @ new"
    and la: "list_all2 (\<lambda>n c. fcConstr opt flowmap s1 d1 n = Inr c) (AllNodes (Topo opt)) new"
    by blast
  from Cons.prems(2) have dr: "distinct reps" and rn: "r \<notin> set reps" by auto
  note IH = Cons.IH [OF rest dr]
  show ?case
  proof (cases "r = [s, d]")
    case True
    with r have sd: "s1 = s" "d1 = d" by auto
    from fc_filter_one [OF la assms(2,3)] sd obtain c where
      c: "fcConstr opt flowmap s d n = Inr c" "filter (\<lambda>c. c_name c = FC s d n) new = [c]"
      by auto
    from True rn IH have "filter (\<lambda>c. c_name c = FC s d n) cs'
        = filter (\<lambda>c. c_name c = FC s d n) cs1" by simp
    with c cs1 fm True show ?thesis by auto
  next
    case False
    with r have "(s1, d1) \<noteq> (s, d)" by auto
    with fc_filter_other [OF la, of s d n] have "filter (\<lambda>c. c_name c = FC s d n) new = []"
      by auto
    with cs1 have "filter (\<lambda>c. c_name c = FC s d n) cs1 = filter (\<lambda>c. c_name c = FC s d n) cs0"
      by simp
    with IH False show ?thesis by auto
  qed
qed

text \<open>
  Claim C6. When \<open>setFlowConservationConstraint\<close> returns, for every representative
  commodity \<open>(s, d)\<close> and every node \<open>n\<close> the model holds exactly one constraint named
  \<open>fc_s_d_n\<close> (none was there before). It is an equality; its left side is the sum of the
  flow variables \<open>F[(s, d)][flowmap[h, n]]\<close> over the neighbours \<open>h\<close> of \<open>n\<close> (the links
  entering \<open>n\<close>) plus 1 when \<open>n = s\<close>, and its right side the sum of the variables
  \<open>F[(s, d)][flowmap[n, h]]\<close> (the links leaving \<open>n\<close>) plus 1 when \<open>n = d\<close>.
\<close>

theorem setFlowConservationConstraint_one_per_node:
  assumes "setFlowConservationConstraint opt fs = Inr opt'"
    and "distinct (RepCommodities (Topo opt))" and "distinct (AllNodes (Topo opt))"
    and "[s, d] \<in> set (RepCommodities (Topo opt))" and "n \<in> set (AllNodes (Topo opt))"
    and "\<forall>c \<in> set (constrs (M opt)). c_name c \<noteq> FC s d n"
  shows "\<exists>flowmap hs flowin flowout.
           FlowLinkMap fs [s, d] = Some flowmap
         \<and> neighbors (Topo opt) n = Inr hs
         \<and> list_all2 (\<lambda>h v. \<exists>Fr l. F opt [s, d] = Some Fr \<and> flowmap [h, n] = Some l
                \<and> Fr l = Some v) hs flowin
         \<and> list_all2 (\<lambda>h v. \<exists>Fr l. F opt [s, d] = Some Fr \<and> flowmap [n, h] = Some l
                \<and> Fr l = Some v) hs flowout
         \<and> filter (\<lambda>c. c_name c = FC s d n) (constrs (M opt'))
             = [\<lparr>c_name = FC s d n, c_lhs = (flowin, if n = s then 1 else 0), c_sense = EQ,
                 c_rhs = (flowout, if n = d then 1 else 0)\<rparr>]"
proof -
  from assms(1) obtain cs' where
    ef: "efold (fcCommodity opt fs) (RepCommodities (Topo opt)) (constrs (M opt)) = Inr cs'"
    and opt': "constrs (M opt') = cs'"
    by (auto simp: setFlowConservationConstraint_def ebind_def split: sum.splits)
  from assms(6) have none: "filter (\<lambda>c. c_name c = FC s d n) (constrs (M opt)) = []"
    by (simp add: filter_empty_conv)
  from fc_loop_filter [OF ef assms(3) assms(5) assms(2), of s d] assms(4) none
  obtain flowmap c where fm: "FlowLinkMap fs [s, d] = Some flowmap"
    and c: "fcConstr opt flowmap s d n = Inr c"
    and fl: "filter (\<lambda>c. c_name c = FC s d n) cs' = [c]"
    by auto
  from c obtain hs flowin flowout where hs: "neighbors (Topo opt) n = Inr hs"
    and fin: "sumFlowVars opt flowmap [s, d] (map (\<lambda>h. [h, n]) hs) = Inr flowin"
    and fout: "sumFlowVars opt flowmap [s, d] (map (\<lambda>h. [n, h]) hs) = Inr flowout"
    and ceq: "c = \<lparr>c_name = FC s d n, c_lhs = (flowin, if n = s then 1 else 0), c_sense = EQ,
                 c_rhs = (flowout, if n = d then 1 else 0)\<rparr>"
    by (auto simp: fcConstr_def ebind_def split: sum.splits)
  from sumFlowVars_list_all2 [OF fin]
  have a: "list_all2 (\<lambda>h v. \<exists>Fr l. F opt [s, d] = Some Fr \<and> flowmap [h, n] = Some l
                \<and> Fr l = Some v) hs flowin"
    by (auto simp: list_all2_map1 flowVar_Inr elim!: list_all2_mono)
  from sumFlowVars_list_all2 [OF fout]
  have b: "list_all2 (\<lambda>h v. \<exists>Fr l. F opt [s, d] = Some Fr \<and> flowmap [n, h] = Some l
                \<and> Fr l = Some v) hs flowout"
    by (auto simp: list_all2_map1 flowVar_Inr elim!: list_all2_mono)
  from fm hs a b fl ceq opt' show ?thesis by auto
qed

lemma ex_fc:
  "setFlowConservationConstraint ex_opt ex_files = Inr (ex_opt\<lparr>M := (M ex_opt)\<lparr>constrs :=
     [\<lparr>c_name = FC 0 1 0, c_lhs = ([F_var [0, 1] [1, 0]], 1), c_sense = EQ,
        c_rhs = ([F_var [0, 1] [0, 1]], 0)\<rparr>,
      \<lparr>c_name = FC 0 1 1, c_lhs = ([F_var [0, 1] [0, 1]], 0), c_sense = EQ,
        c_rhs = ([F_var [0, 1] [1, 0]], 1)\<rparr>]\<rparr>\<rparr>)"
  by (simp add: setFlowConservationConstraint_def fcCommodity_def fcNode_def fcConstr_def
      neighbors_def flowVar_def ebind_def ex_opt_def ex_topo_def ex_files_def)

theorem setFlowConservationConstraint_one_per_node_witness:
  "\<exists>opt'. setFlowConservationConstraint ex_opt ex_files = Inr opt'
     \<and> filter (\<lambda>c. c_name c = FC 0 1 0) (constrs (M opt'))
       = [\<lparr>c_name = FC 0 1 0, c_lhs = ([F_var [0, 1] [1, 0]], 1), c_sense = EQ,
            c_rhs = ([F_var [0, 1] [0, 1]], 0)\<rparr>]"
proof -
  let ?opt' = "ex_opt\<lparr>M := (M ex_opt)\<lparr>constrs :=
     [\<lparr>c_name = FC 0 1 0, c_lhs = ([F_var [0, 1] [1, 0]], 1), c_sense = EQ,
        c_rhs = ([F_var [0, 1] [0, 1]], 0)\<rparr>,
      \<lparr>c_name = FC 0 1 1, c_lhs = ([F_var [0, 1] [0, 1]], 0), c_sense = EQ,
        c_rhs = ([F_var [0, 1] [1, 0]], 1)\<rparr>]\<rparr>\<rparr>"
  have 1: "distinct (RepCommodities (Topo ex_opt))" "distinct (AllNodes (Topo ex_opt))"
    "[0, 1] \<in> set (RepCommodities (Topo ex_opt))" "0 \<in> set (AllNodes (Topo ex_opt))"
    "\<forall>c \<in> set (constrs (M ex_opt)). c_name c \<noteq> FC 0 1 0"
    by (simp_all add: ex_opt_def ex_topo_def)
  from setFlowConservationConstraint_one_per_node [OF ex_fc 1]
  obtain flowin flowout where
    "filter (\<lambda>c. c_name c = FC 0 1 0) (constrs (M ?opt'))
       = [\<lparr>c_name = FC 0 1 0, c_lhs = (flowin, if (0::nat) = 0 then 1 else 0), c_sense = EQ,
            c_rhs = (flowout, if (0::nat) = 1 then 1 else 0)\<rparr>]"
    by blast
  then have "filter (\<lambda>c. c_name c = FC 0 1 0) (constrs (M ?opt'))
       = [\<lparr>c_name = FC 0 1 0, c_lhs = ([F_var [0, 1] [1, 0]], 1), c_sense = EQ,
            c_rhs = ([F_var [0, 1] [0, 1]], 0)\<rparr>]"
    by simp
  with ex_fc show ?thesis by blast
qed

subsection \<open>Compaction counts\<close>

lemma efold_invariant:
  assumes "efold f xs s = Inr s'" and "P s"
    and "\<And>x t t'. x \<in> set xs \<Longrightarrow> P t \<Longrightarrow> f x t = Inr t' \<Longrightarrow> P t'"
  shows "P s'"
  using assms
proof (induction xs arbitrary: s)
  case Nil
  then show ?case by simp
next
  case (Cons x xs)
  from Cons.prems(1) obtain t where fx: "f x s = Inr t" and rest: "efold f xs t = Inr s'"
    by (auto split: sum.splits)
  from Cons.prems(3) [OF _ Cons.prems(2) fx] have "P t" by simp
  show ?case
  proof (rule Cons.IH [OF rest \<open>P t\<close>])
    fix y u u'
    assume "y \<in> set xs" "P u" "f y u = Inr u'"
    then show "P u'" using Cons.prems(3) [of y u u'] by simp
  qed
qed

lemma insert_not_Nil: "List.insert x xs \<noteq> []"
  by (auto simp: List.insert_def)

lemma groups_nonempty_addToGroup:
  "groups_nonempty cs \<Longrightarrow> groups_nonempty (addToGroup code autsd cs)"
  by (auto simp: groups_nonempty_def addToGroup_def update_conv' insert_not_Nil
      split: if_splits)

lemma groups_nonempty_efold:
  assumes "efold (groupStep sg fs node repsd) autcomms [] = Inr cs"
  shows "groups_nonempty cs"
proof (rule efold_invariant [OF assms])
  show "groups_nonempty ([] :: (code \<times> nat list list) list)"
    by (simp add: groups_nonempty_def)
next
  fix x t t'
  assume "groups_nonempty t" "groupStep sg fs node repsd x t = Inr t'"
  then show "groups_nonempty t'"
    by (auto simp: groupStep_def ebind_def groups_nonempty_addToGroup split: sum.splits)
qed

lemma splitgroups_nonempty:
  assumes "efold (groupCommodity sg fs node) reps [] = Inr splitgroups"
  shows "\<forall>repsd cs. map_of splitgroups repsd = Some cs \<longrightarrow> groups_nonempty cs"
proof (rule efold_invariant [OF assms])
  show "\<forall>repsd cs. map_of ([] :: splitgroups) repsd = Some cs \<longrightarrow> groups_nonempty cs"
    by simp
next
  fix x t t'
  assume t: "\<forall>repsd cs. map_of t repsd = Some cs \<longrightarrow> groups_nonempty cs"
    and step: "groupCommodity sg fs node x t = Inr t'"
  from step obtain autcomms cs where
    "efold (groupStep sg fs node x) autcomms [] = Inr cs" and t': "t' = AList.update x cs t"
    by (auto simp: groupCommodity_def ebind_def split: option.splits sum.splits)
  then have "groups_nonempty cs" by (auto dest: groups_nonempty_efold)
  with t t' show "\<forall>repsd cs. map_of t' repsd = Some cs \<longrightarrow> groups_nonempty cs"
    by (auto simp: update_conv' split: if_splits)
qed

lemma counts_ok_countKey:
  assumes "groups_nonempty commsplit" and "counts_ok cnt"
    and "countKey commsplit sdgrp cnt = Inr cnt'"
  shows "counts_ok cnt'"
proof (cases cnt)
  case (Pair a c)
  show ?thesis
  proof (cases "length sdgrp = 0")
    case True
    with assms Pair show ?thesis by (simp add: countKey_def)
  next
    case False
    with assms(3) Pair obtain grp where g: "map_of commsplit sdgrp = Some grp"
      and c': "cnt' = (a + length grp, c + 1)"
      by (auto simp: countKey_def split: option.splits)
    from g assms(1) have "grp \<noteq> []" by (auto simp: groups_nonempty_def)
    then have "Suc 0 \<le> length grp" by (cases grp) simp_all
    moreover from assms(2) Pair have "c \<le> a" "c = 0 \<longleftrightarrow> a = 0"
      by (simp_all add: counts_ok_def)
    ultimately show ?thesis unfolding c' counts_ok_def by auto
  
  qed
qed

lemma counts_ok_countCommodity:
  assumes "\<forall>repsd cs. map_of splitgroups repsd = Some cs \<longrightarrow> groups_nonempty cs"
    and "counts_ok cnt" and "countCommodity splitgroups repsd cnt = Inr cnt'"
  shows "counts_ok cnt'"
proof -
  from assms(3) obtain commsplit where m: "map_of splitgroups repsd = Some commsplit"
    and ef: "efold (countKey commsplit) (map fst commsplit) cnt = Inr cnt'"
    by (auto simp: countCommodity_def split: option.splits)
  from m assms(1) have "groups_nonempty commsplit" by blast
  with efold_invariant [OF ef, of counts_ok] assms(2) show ?thesis
    by (blast intro: counts_ok_countKey)
qed

text \<open>
  Claim C8, as amended. For every node that \<open>groupSolutionAtNode\<close> finishes, the stored
  counts satisfy \<open>compact \<le> all\<close>, and \<open>compact\<close> is 0 exactly when \<open>all\<close> is 0; whenever
  \<open>all\<close> is positive the ratio \<open>compact / all\<close> that \<open>getStatCountInfo\<close> computes for
  the node exists, and every ratio it computes lies in \<open>(0, 1]\<close>.
\<close>

theorem groupSolutionAtNode_counts:
  assumes "groupSolutionAtNode sg fs node gf = Inr gf'"
  shows "\<exists>cntall cntcpt. CountRouteInfo gf' node = Some (cntall, cntcpt)
           \<and> cntcpt \<le> cntall \<and> (cntcpt = 0 \<longleftrightarrow> cntall = 0)
           \<and> (\<forall>r. compactionRatio gf' node = Inr r \<longrightarrow> 0 < r \<and> r \<le> 1)
           \<and> (0 < cntall \<longrightarrow> compactionRatio gf' node = Inr (real cntcpt / real cntall))"
proof -
  from assms obtain splitgroups cnt where
    g: "efold (groupCommodity sg fs node) (RepCommodities (gTopo sg)) [] = Inr splitgroups"
    and c: "efold (countCommodity splitgroups) (RepCommodities (gTopo sg)) (0, 0) = Inr cnt"
    and gf': "CountRouteInfo gf' node = Some cnt"
    by (auto simp: groupSolutionAtNode_def countRouteInfoAtNode_def ebind_def
        split: sum.splits)
  have "counts_ok cnt"
  proof (rule efold_invariant [OF c])
    show "counts_ok (0, 0)" by (simp add: counts_ok_def)
  next
    fix x t t'
    assume "counts_ok t" "countCommodity splitgroups x t = Inr t'"
    with splitgroups_nonempty [OF g] show "counts_ok t'"
      by (blast intro: counts_ok_countCommodity)
  qed
  then obtain cntall cntcpt where cnt: "cnt = (cntall, cntcpt)"
    and le: "cntcpt \<le> cntall" and z: "cntcpt = 0 \<longleftrightarrow> cntall = 0"
    by (cases cnt) (auto simp: counts_ok_def)
  have "0 < real cntcpt / real cntall \<and> real cntcpt / real cntall \<le> 1" if "cntall \<noteq> 0"
    using that le z by (simp add: divide_le_eq)
  with gf' cnt le z show ?thesis
    by (auto simp: compactionRatio_def)
qed

lemma ex3_node2:
  "groupSolutionAtNode ex3_grouping ex3_files 2 no_grouping_files =
     Inr \<lparr>SplitGroupsAtNodes = [2 \<mapsto> [([0, 1], [([], [[0, 1]])]), ([1, 0], [([], [[1, 0]])])]],
          CountRouteInfo = [2 \<mapsto> (0, 0)]\<rparr>"
  by (simp add: groupSolutionAtNode_def groupCommodity_def groupStep_def encodeFlows_def
      encodeStep_def lookup_alink_def get_edge_data_def neighbors_def addToGroup_def
      countRouteInfoAtNode_def countCommodity_def countKey_def getitem_def ebind_def
      ex3_grouping_def ex3_topo_def ex3_files_def no_grouping_files_def Let_def)

lemma ex3_node1:
  "groupSolutionAtNode ex3_grouping ex3_files 1 no_grouping_files =
     Inr \<lparr>SplitGroupsAtNodes = [1 \<mapsto> [([0, 1], [([], [[0, 1]])]),
              ([1, 0], [([([1, 0], [1, 0], 1)], [[1, 0]])])]],
          CountRouteInfo = [1 \<mapsto> (1, 1)]\<rparr>"
  by (simp add: groupSolutionAtNode_def groupCommodity_def groupStep_def encodeFlows_def
      encodeStep_def lookup_alink_def get_edge_data_def neighbors_def addToGroup_def
      countRouteInfoAtNode_def countCommodity_def countKey_def getitem_def ebind_def
      ex3_grouping_def ex3_topo_def ex3_files_def no_grouping_files_def Let_def)

text \<open>
  Claim C8 as stated fails at node 2 of the three-node topology: no commodity has flow
  on a link leaving the node, every signature is empty, and both counts are 0.
\<close>

theorem groupSolutionAtNode_counts_counterexample:
  "groupSolutionAtNode ex3_grouping ex3_files 2 no_grouping_files = Inr ex3_node2_files
     \<and> CountRouteInfo ex3_node2_files 2 = Some (0, 0)
     \<and> compactionRatio ex3_node2_files 2 = Inl ZeroDivisionError"
  using ex3_node2 by (simp add: ex3_node2_files_def compactionRatio_def)

theorem groupSolutionAtNode_counts_witness:
  "groupSolutionAtNode ex3_grouping ex3_files 1 no_grouping_files = Inr ex3_node1_files
     \<and> CountRouteInfo ex3_node1_files 1 = Some (1, 1)
     \<and> compactionRatio ex3_node1_files 1 = Inr 1"
proof -
  have run: "groupSolutionAtNode ex3_grouping ex3_files 1 no_grouping_files = Inr ex3_node1_files"
    using ex3_node1 by (simp add: ex3_node1_files_def)
  from groupSolutionAtNode_counts [OF run]
  have "compactionRatio ex3_node1_files 1 = Inr 1"
    by (simp add: ex3_node1_files_def)
  with run show ?thesis by (simp add: ex3_node1_files_def)
qed

subsection \<open>Auxiliary orbits, reverse maps and link signatures\<close>

lemma applyGenerator_act:
  "\<forall>n \<in> set xs. n < length g \<Longrightarrow> applyGenerator xs g = Inr (map ((!) g) xs)"
  by (induction xs) (auto simp: getitem_def)

lemma applyGenerator_Inr:
  "applyGenerator xs g = Inr ys \<Longrightarrow> (\<forall>n \<in> set xs. n < length g) \<and> ys = map ((!) g) xs"
  by (induction xs arbitrary: ys) (auto simp: getitem_def split: if_splits sum.splits)

lemma in_range_act:
  "gens_in_range N gens \<Longrightarrow> g \<in> set gens \<Longrightarrow> in_range N xs \<Longrightarrow> in_range N (act g xs)"
  by (auto simp: gens_in_range_def in_range_def act_def)

lemma applyGenerator_in_range:
  "gens_in_range N gens \<Longrightarrow> g \<in> set gens \<Longrightarrow> in_range N xs
   \<Longrightarrow> applyGenerator xs g = Inr (act g xs)"
  unfolding act_def by (rule applyGenerator_act) (auto simp: gens_in_range_def in_range_def)

lemma set_set_add [simp]: "set (set_add x xs) = insert x (set xs)"
  by (auto simp: set_add_def)

lemma distinct_set_add [simp]: "distinct (set_add x xs) = distinct xs"
  by (auto simp: set_add_def)

lemma pop_props:
  assumes "xs \<noteq> []" and "distinct xs" and "pop pick xs = (x, ys)"
  shows "x \<in> set xs" and "set ys = set xs - {x}" and "distinct ys"
proof -
  let ?i = "pick xs mod length xs"
  from assms(1) have i: "?i < length xs" by simp
  from assms(3) have x: "x = xs ! ?i" and ys: "ys = take ?i xs @ drop (Suc ?i) xs"
    by (simp_all add: pop_def Let_def)
  from i x show "x \<in> set xs" by simp
  have xs: "xs = take ?i xs @ x # drop (Suc ?i) xs"
    using i x by (simp add: id_take_nth_drop)
  with assms(2) have d: "distinct (take ?i xs @ x # drop (Suc ?i) xs)" by simp
  then show "distinct ys" unfolding ys by simp
  from d have "x \<notin> set ys" unfolding ys by simp
  moreover have "set xs = insert x (set ys)"
    by (subst xs) (simp add: ys)
  ultimately show "set ys = set xs - {x}" by auto
qed

lemma auxNext_props:
  assumes "gens_in_range N gens'" and "set gens \<subseteq> set gens'" and "in_range N aux"
  shows "\<exists>tv. auxNext gens aux visited tovisit = Inr tv
           \<and> set tv = set tovisit \<union> ((\<lambda>g. act g aux) ` set gens - set visited)
           \<and> (distinct tovisit \<longrightarrow> distinct tv)"
  using assms(2)
proof (induction gens arbitrary: tovisit)
  case Nil
  then show ?case by simp
next
  case (Cons g gens)
  from Cons.prems have g: "g \<in> set gens'" and sub: "set gens \<subseteq> set gens'" by auto
  from applyGenerator_in_range [OF assms(1) g assms(3)]
  have ag: "applyGenerator aux g = Inr (act g aux)" .
  let ?tv1 = "if act g aux \<in> set visited then tovisit else set_add (act g aux) tovisit"
  from Cons.IH [OF sub, of ?tv1] obtain tv where
    tv: "auxNext gens aux visited ?tv1 = Inr tv"
    and st: "set tv = set ?tv1 \<union> ((\<lambda>g. act g aux) ` set gens - set visited)"
    and dt: "distinct ?tv1 \<longrightarrow> distinct tv"
    by blast
  from tv ag have "auxNext (g # gens) aux visited tovisit = Inr tv" by simp
  moreover from st have "set tv = set tovisit \<union> ((\<lambda>g. act g aux) ` set (g # gens) - set visited)"
    by auto
  moreover from dt have "distinct tovisit \<longrightarrow> distinct tv" by simp
  ultimately show ?case by blast
qed

lemma finite_tuples: "finite (tuples N k)"
proof -
  have "tuples N k = {xs. set xs \<subseteq> {..<N} \<and> length xs = k}"
    by (auto simp: tuples_def in_range_def)
  then show ?thesis by (simp add: finite_lists_length_eq)
qed

lemma act_tuples:
  "gens_in_range N gens \<Longrightarrow> g \<in> set gens \<Longrightarrow> x \<in> tuples N k \<Longrightarrow> act g x \<in> tuples N k"
  using in_range_act [of N gens g x] by (simp add: tuples_def) (simp add: act_def)

lemma auxOrbit_correct:
  assumes wf: "gens_in_range N gens"
  shows "set tovisit \<subseteq> tuples N k \<Longrightarrow> distinct tovisit \<Longrightarrow> set tovisit \<inter> set visited = {} \<Longrightarrow>
    \<exists>A V D. auxOrbit pick gens tovisit autauxs visited = Some (Inr (A, V))
       \<and> set A = set autauxs \<union> D \<and> set V = set visited \<union> D \<and> D \<subseteq> tuples N k
       \<and> D \<inter> set visited = {} \<and> set tovisit \<subseteq> D
       \<and> (\<forall>x \<in> D. \<forall>g \<in> set gens. act g x \<in> set V)"
proof (induction "card (tuples N k - set visited)" arbitrary: tovisit autauxs visited
    rule: less_induct)
  case less
  show ?case
  proof (cases "tovisit = []")
    case True
    then have "auxOrbit pick gens tovisit autauxs visited = Some (Inr (autauxs, visited))"
      by (subst auxOrbit.simps) simp
    with True show ?thesis by (intro exI [of _ autauxs] exI [of _ visited] exI [of _ "{}"]) simp
  next
    case False
    obtain aux tv1 where p: "pop pick tovisit = (aux, tv1)" by (cases "pop pick tovisit")
    from pop_props [OF False less.prems(2) p]
    have aux: "aux \<in> set tovisit" and tv1: "set tv1 = set tovisit - {aux}"
      and dtv1: "distinct tv1" by auto
    from aux less.prems have auxU: "aux \<in> tuples N k" and auxV: "aux \<notin> set visited" by auto
    from auxU have auxR: "in_range N aux" by (simp add: tuples_def)
    let ?V1 = "set_add aux visited"
    from auxNext_props [OF wf subset_refl auxR, of ?V1 tv1] dtv1 obtain tv2 where
      n: "auxNext gens aux ?V1 tv1 = Inr tv2"
      and tv2: "set tv2 = set tv1 \<union> ((\<lambda>g. act g aux) ` set gens - set ?V1)"
      and dtv2: "distinct tv2"
      by blast
    have sub2: "set tv2 \<subseteq> tuples N k"
      using tv2 tv1 less.prems(1) act_tuples [OF wf _ auxU] by auto
    have disj2: "set tv2 \<inter> set ?V1 = {}"
      using tv2 tv1 less.prems(3) by auto
    have "tuples N k - set ?V1 \<subset> tuples N k - set visited"
      using auxU auxV by auto
    then have m: "card (tuples N k - set ?V1) < card (tuples N k - set visited)"
      by (intro psubset_card_mono) (simp_all add: finite_tuples)
    from less.hyps [OF m sub2 dtv2 disj2, of "set_add aux autauxs"]
    obtain A V D where
      r: "auxOrbit pick gens tv2 (set_add aux autauxs) ?V1 = Some (Inr (A, V))"
      and A: "set A = set (set_add aux autauxs) \<union> D" and V: "set V = set ?V1 \<union> D"
      and DU: "D \<subseteq> tuples N k" and DV: "D \<inter> set ?V1 = {}" and tvD: "set tv2 \<subseteq> D"
      and cl: "\<forall>x \<in> D. \<forall>g \<in> set gens. act g x \<in> set V"
      by blast
    have run: "auxOrbit pick gens tovisit autauxs visited = Some (Inr (A, V))"
      using False p n r by (subst auxOrbit.simps) simp
    let ?D = "insert aux D"
    have "set A = set autauxs \<union> ?D" using A by auto
    moreover have "set V = set visited \<union> ?D" using V by auto
    moreover have "?D \<subseteq> tuples N k" using DU auxU by auto
    moreover have "?D \<inter> set visited = {}" using DV auxV by auto
    moreover have "set tovisit \<subseteq> ?D" using tv1 tv2 tvD by auto
    moreover have "\<forall>x \<in> ?D. \<forall>g \<in> set gens. act g x \<in> set V"
    proof (intro ballI)
      fix x g assume x: "x \<in> ?D" and g: "g \<in> set gens"
      show "act g x \<in> set V"
      proof (cases "x = aux")
        case True
        with g tv2 tvD V show ?thesis by auto
      next
        case False
        with x cl g show ?thesis by auto
      qed
    qed
    ultimately show ?thesis using run by blast
  qed
qed

lemma inj_on_act:
  assumes "gens_perm N gens" and "g \<in> set gens"
  shows "inj_on (act g) (tuples N k)"
proof -
  from assms have lg: "length g = N" and dg: "distinct g"
    by (auto simp: gens_perm_def gens_in_range_def)
  have "inj_on ((!) g) {..<N}"
    using dg lg by (intro inj_on_nth) auto
  moreover have "\<Union> (set ` tuples N k) \<subseteq> {..<N}"
    by (auto simp: tuples_def in_range_def)
  ultimately have "inj_on ((!) g) (\<Union> (set ` tuples N k))"
    by (rule inj_on_subset)
  then have "inj_on (map ((!) g)) (tuples N k)" by (rule inj_on_mapI)
  moreover have "act g = map ((!) g)" by (intro ext) (simp add: act_def)
  ultimately show ?thesis by simp
qed

lemma closed_back:
  assumes "gens_perm N gens" and "g \<in> set gens" and "V \<subseteq> tuples N k"
    and "\<forall>x \<in> V. act g x \<in> V" and "x \<in> tuples N k" and "act g x \<in> V"
  shows "x \<in> V"
proof -
  have inj: "inj_on (act g) (tuples N k)" by (rule inj_on_act [OF assms(1,2)])
  then have injV: "inj_on (act g) V" using assms(3) by (rule inj_on_subset)
  have "finite V" using assms(3) finite_tuples by (rule finite_subset)
  moreover have "act g ` V \<subseteq> V" using assms(4) by auto
  ultimately have "act g ` V = V" using injV by (rule endo_inj_surj)
  with assms(6) obtain v where v: "v \<in> V" "act g v = act g x" by force
  with inj assms(3,5) have "v = x" by (auto dest: inj_onD)
  with v show ?thesis by simp
qed

lemma orbitInv_extend:
  assumes wf: "gens_in_range N gens"
    and inv: "orbitInv N k gens V0 R G"
    and r: "r \<notin> V0" "r \<in> D"
    and D: "D \<subseteq> tuples N k" "D \<inter> V0 = {}"
    and A: "set A = D"
    and cl: "\<forall>x \<in> D. \<forall>g \<in> set gens. act g x \<in> V0 \<union> D"
  shows "orbitInv N k gens (V0 \<union> D) (set_add r R) (G(r \<mapsto> A))"
proof -
  from inv have V0: "V0 \<subseteq> tuples N k" and dR: "distinct R"
    and grp: "\<forall>r \<in> set R. \<exists>A. G r = Some A \<and> r \<in> set A \<and> set A \<subseteq> V0"
    and cov: "\<forall>x \<in> V0. \<exists>r \<in> set R. \<exists>A. G r = Some A \<and> x \<in> set A"
    and dis: "\<forall>r \<in> set R. \<forall>r' \<in> set R. \<forall>A A'. G r = Some A \<and> G r' = Some A' \<and> r \<noteq> r'
         \<longrightarrow> set A \<inter> set A' = {}"
    and clV: "\<forall>x \<in> V0. \<forall>g \<in> set gens. act g x \<in> V0"
    and clG: "gens_perm N gens \<longrightarrow>
        (\<forall>r \<in> set R. \<forall>A. G r = Some A \<longrightarrow> (\<forall>x \<in> set A. \<forall>g \<in> set gens. act g x \<in> set A))"
    unfolding orbitInv_def by blast+
  from grp r(1) have rR: "r \<notin> set R" by auto
  have 1: "V0 \<union> D \<subseteq> tuples N k" using V0 D(1) by auto
  have 2: "distinct (set_add r R)" using dR by simp
  have 3: "\<forall>q \<in> set (set_add r R). \<exists>B. (G(r \<mapsto> A)) q = Some B \<and> q \<in> set B \<and> set B \<subseteq> V0 \<union> D"
  proof
    fix q assume q: "q \<in> set (set_add r R)"
    show "\<exists>B. (G(r \<mapsto> A)) q = Some B \<and> q \<in> set B \<and> set B \<subseteq> V0 \<union> D"
    proof (cases "q = r")
      case True
      with r(2) A show ?thesis by auto
    next
      case False
      with q have "q \<in> set R" by simp
      with grp obtain B where "G q = Some B" "q \<in> set B" "set B \<subseteq> V0" by blast
      with False show ?thesis by auto
    qed
  qed
  have 4: "\<forall>x \<in> V0 \<union> D. \<exists>q \<in> set (set_add r R). \<exists>B. (G(r \<mapsto> A)) q = Some B \<and> x \<in> set B"
  proof
    fix x assume "x \<in> V0 \<union> D"
    then show "\<exists>q \<in> set (set_add r R). \<exists>B. (G(r \<mapsto> A)) q = Some B \<and> x \<in> set B"
    proof
      assume "x \<in> V0"
      with cov obtain q B where "q \<in> set R" "G q = Some B" "x \<in> set B" by blast
      with rR show ?thesis by (intro bexI [of _ q]) auto
    next
      assume "x \<in> D"
      with A show ?thesis by (intro bexI [of _ r]) auto
    qed
  qed
  have 5: "\<forall>q \<in> set (set_add r R). \<forall>q' \<in> set (set_add r R). \<forall>B B'.
      (G(r \<mapsto> A)) q = Some B \<and> (G(r \<mapsto> A)) q' = Some B' \<and> q \<noteq> q' \<longrightarrow> set B \<inter> set B' = {}"
  proof (intro ballI allI impI)
    fix q q' B B'
    assume q: "q \<in> set (set_add r R)" and q': "q' \<in> set (set_add r R)"
      and h: "(G(r \<mapsto> A)) q = Some B \<and> (G(r \<mapsto> A)) q' = Some B' \<and> q \<noteq> q'"
    show "set B \<inter> set B' = {}"
    proof (cases "q = r")
      case True
      with h have B: "B = A" and "q' \<noteq> r" by auto
      with q' h have "q' \<in> set R" "G q' = Some B'" by auto
      with grp have "set B' \<subseteq> V0" by fastforce
      with B A D(2) show ?thesis by auto
    next
      case False
      with q h have qR: "q \<in> set R" "G q = Some B" by auto
      with grp have BV: "set B \<subseteq> V0" by fastforce
      show ?thesis
      proof (cases "q' = r")
        case True
        with h have "B' = A" by auto
        with BV A D(2) show ?thesis by auto
      next
        case False
        with q' h have "q' \<in> set R" "G q' = Some B'" by auto
        with qR h dis show ?thesis by blast
      qed
    qed
  qed
  have 6: "\<forall>x \<in> V0 \<union> D. \<forall>g \<in> set gens. act g x \<in> V0 \<union> D"
    using clV cl by auto
  have 7: "gens_perm N gens \<longrightarrow> (\<forall>q \<in> set (set_add r R). \<forall>B. (G(r \<mapsto> A)) q = Some B
      \<longrightarrow> (\<forall>x \<in> set B. \<forall>g \<in> set gens. act g x \<in> set B))"
  proof (intro impI ballI allI)
    fix q B x g
    assume perm: "gens_perm N gens" and q: "q \<in> set (set_add r R)"
      and B: "(G(r \<mapsto> A)) q = Some B" and x: "x \<in> set B" and g: "g \<in> set gens"
    show "act g x \<in> set B"
    proof (cases "q = r")
      case True
      with B A have BD: "set B = D" by auto
      with x cl g have "act g x \<in> V0 \<union> D" by auto
      moreover have "act g x \<notin> V0"
      proof
        assume "act g x \<in> V0"
        moreover from x BD D(1) have "x \<in> tuples N k" by auto
        moreover from clV g have "\<forall>x \<in> V0. act g x \<in> V0" by auto
        ultimately have "x \<in> V0" using closed_back [OF perm g V0] by blast
        with x BD D(2) show False by auto
      qed
      ultimately show ?thesis using BD by auto
    next
      case False
      with q B have "q \<in> set R" "G q = Some B" by auto
      with clG perm x g show ?thesis by blast
    qed
  qed
  from 1 2 3 4 5 6 7 show ?thesis unfolding orbitInv_def by blast
qed

lemma auxLoop_correct:
  assumes wf: "gens_in_range N gens"
  shows "set idx \<subseteq> tuples N k \<Longrightarrow> orbitInv N k gens (set visited) R G \<Longrightarrow>
    \<exists>V' R' G'. auxLoop pick gens idx (visited, R, G) = Some (Inr (V', R', G'))
       \<and> orbitInv N k gens (set V') R' G' \<and> set idx \<union> set visited \<subseteq> set V'"
proof (induction idx arbitrary: visited R G)
  case Nil
  then show ?case by simp
next
  case (Cons r idx)
  from Cons.prems(1) have rU: "r \<in> tuples N k" and idxU: "set idx \<subseteq> tuples N k" by auto
  show ?case
  proof (cases "r \<in> set visited")
    case True
    from Cons.IH [OF idxU Cons.prems(2)] True show ?thesis by auto
  next
    case False
    from auxOrbit_correct [OF wf, of "set_add r []" k visited pick "[]"] rU False
    obtain A V D where
      run: "auxOrbit pick gens (set_add r []) [] visited = Some (Inr (A, V))"
      and A: "set A = D" and V: "set V = set visited \<union> D" and DU: "D \<subseteq> tuples N k"
      and DV: "D \<inter> set visited = {}" and rD: "r \<in> D"
      and cl: "\<forall>x \<in> D. \<forall>g \<in> set gens. act g x \<in> set V"
      by (auto simp: set_add_def)
    from cl V have cl': "\<forall>x \<in> D. \<forall>g \<in> set gens. act g x \<in> set visited \<union> D" by simp
    from orbitInv_extend [OF wf Cons.prems(2) False rD DU DV A cl'] V
    have inv': "orbitInv N k gens (set V) (set_add r R) (G(r \<mapsto> A))" by simp
    from Cons.IH [OF idxU inv'] obtain V' R' G' where
      "auxLoop pick gens idx (V, set_add r R, G(r \<mapsto> A)) = Some (Inr (V', R', G'))"
      "orbitInv N k gens (set V') R' G'" "set idx \<union> set V \<subseteq> set V'"
      by blast
    with run False V rD show ?thesis by auto
  qed
qed

lemma update_absent: "k \<notin> fst ` set al \<Longrightarrow> AList.update k v al = al @ [(k, v)]"
  by (induction al) auto

lemma fst_set_countsOf:
  "fst ` set (countsOf cb cg reps) = (\<lambda>a. (Beta, a)) ` set reps \<union> (\<lambda>a. (Gamma, a)) ` set reps"
  by (induction reps) (auto simp: countsOf_def)

lemma countsOf_append:
  "countsOf cb cg (xs @ ys) = countsOf cb cg xs @ countsOf cb cg ys"
  by (simp add: countsOf_def)

lemma initCount_fold:
  assumes "distinct (done @ reps)"
  shows "fold (\<lambda>auxidx cnt. AList.update (Gamma, auxidx) 0 (AList.update (Beta, auxidx) 0 cnt))
           reps (countsOf (\<lambda>a. 0) (\<lambda>a. 0) done)
         = countsOf (\<lambda>a. 0) (\<lambda>a. 0) (done @ reps)"
  using assms
proof (induction reps arbitrary: "done")
  case Nil
  then show ?case by simp
next
  case (Cons a reps)
  let ?c = "countsOf (\<lambda>a. 0) (\<lambda>a. 0)"
  from Cons.prems have a: "a \<notin> set done" by simp
  then have b: "(Beta, a) \<notin> fst ` set (?c done)" and g: "(Gamma, a) \<notin> fst ` set (?c done)"
    by (auto simp: fst_set_countsOf)
  from b have 1: "AList.update (Beta, a) 0 (?c done) = ?c done @ [((Beta, a), 0)]"
    by (rule update_absent)
  from g have "(Gamma, a) \<notin> fst ` set (?c done @ [((Beta, a), 0)])" by auto
  then have 2: "AList.update (Gamma, a) 0 (?c done @ [((Beta, a), 0)])
      = (?c done @ [((Beta, a), 0)]) @ [((Gamma, a), 0)]"
    by (rule update_absent)
  have 3: "(?c done @ [((Beta, a), 0)]) @ [((Gamma, a), 0)] = ?c (done @ [a])"
    by (simp add: countsOf_def)
  from Cons.prems have "distinct ((done @ [a]) @ reps)" by simp
  from Cons.IH [OF this] 1 2 3 show ?case by simp
qed

lemma initCount_countsOf:
  "distinct reps \<Longrightarrow> initCount reps = countsOf (\<lambda>a. 0) (\<lambda>a. 0) reps"
  using initCount_fold [of "[]" reps] by (simp add: initCount_def countsOf_def)

lemma map_of_countsOf:
  "map_of (countsOf cb cg reps) (t, a) =
     (if a \<in> set reps then Some (case t of Beta \<Rightarrow> cb a | Gamma \<Rightarrow> cg a) else None)"
  by (induction reps) (auto simp: countsOf_def split: tag.splits)

lemma countsOf_upd_absent:
  "a \<notin> set reps \<Longrightarrow> countsOf (cb(a := v)) cg reps = countsOf cb cg reps"
  "a \<notin> set reps \<Longrightarrow> countsOf cb (cg(a := v)) reps = countsOf cb cg reps"
  by (induction reps) (auto simp: countsOf_def)

lemma update_countsOf_Beta:
  "distinct reps \<Longrightarrow> a \<in> set reps \<Longrightarrow>
   AList.update (Beta, a) v (countsOf cb cg reps) = countsOf (cb(a := v)) cg reps"
proof (induction reps)
  case Nil
  then show ?case by simp
next
  case (Cons r reps)
  show ?case
  proof (cases "r = a")
    case True
    with Cons.prems have "a \<notin> set reps" by simp
    then have "countsOf (cb(a := v)) cg reps = countsOf cb cg reps"
      by (rule countsOf_upd_absent)
    with True show ?thesis by (simp add: countsOf_def)
  next
    case False
    with Cons show ?thesis by (simp add: countsOf_def)
  qed
qed

lemma update_countsOf_Gamma:
  "distinct reps \<Longrightarrow> a \<in> set reps \<Longrightarrow>
   AList.update (Gamma, a) v (countsOf cb cg reps) = countsOf cb (cg(a := v)) reps"
proof (induction reps)
  case Nil
  then show ?case by simp
next
  case (Cons r reps)
  show ?case
  proof (cases "r = a")
    case True
    with Cons.prems have "a \<notin> set reps" by simp
    then have "countsOf cb (cg(a := v)) reps = countsOf cb cg reps"
      by (rule countsOf_upd_absent)
    with True show ?thesis by (simp add: countsOf_def)
  next
    case False
    with Cons show ?thesis by (simp add: countsOf_def)
  qed
qed

lemma countHost_countsOf:
  assumes "distinct reps"
  shows "countHost fs link u (countsOf c c reps) =
     (case auxToRepLookup fs u link of
        Inl e \<Rightarrow> Inl e
      | Inr a \<Rightarrow> if a \<in> set reps then Inr (countsOf (c(a := c a + 1)) (c(a := c a + 1)) reps)
                  else Inl KeyError)"
  using assms
  by (auto simp: countHost_def increment_def map_of_countsOf
      update_countsOf_Beta update_countsOf_Gamma split: sum.splits)

lemma efold_countHost:
  assumes "distinct reps"
  shows "efold (countHost fs link) hs (countsOf c c reps) = Inr cnt \<longleftrightarrow>
     (\<forall>u \<in> set hs. \<exists>a \<in> set reps. auxToRepLookup fs u link = Inr a)
     \<and> cnt = countsOf (\<lambda>a. c a + length (filter (\<lambda>u. auxToRepLookup fs u link = Inr a) hs))
                 (\<lambda>a. c a + length (filter (\<lambda>u. auxToRepLookup fs u link = Inr a) hs)) reps"
proof (induction hs arbitrary: c)
  case Nil
  show ?case by simp (rule eq_commute)
next
  case (Cons u hs)
  let ?ok = "\<lambda>v. \<exists>a \<in> set reps. auxToRepLookup fs v link = Inr a"
  let ?n = "\<lambda>hs b. length (filter (\<lambda>u. auxToRepLookup fs u link = Inr b) hs)"
  show ?case
  proof (cases "?ok u")
    case True
    then obtain a where a: "a \<in> set reps" "auxToRepLookup fs u link = Inr a" by blast
    let ?c = "c(a := c a + 1)"
    have eq: "(\<lambda>b. ?c b + ?n hs b) = (\<lambda>b. c b + ?n (u # hs) b)"
    proof
      fix b show "?c b + ?n hs b = c b + ?n (u # hs) b"
        using a(2) by (cases "b = a") simp_all
    qed
    from a assms have "countHost fs link u (countsOf c c reps) = Inr (countsOf ?c ?c reps)"
      by (simp add: countHost_countsOf)
    then have step: "efold (countHost fs link) (u # hs) (countsOf c c reps)
        = efold (countHost fs link) hs (countsOf ?c ?c reps)"
      by simp
    have ih: "(efold (countHost fs link) hs (countsOf ?c ?c reps) = Inr cnt) =
        ((\<forall>u \<in> set hs. ?ok u)
        \<and> cnt = countsOf (\<lambda>b. ?c b + ?n hs b) (\<lambda>b. ?c b + ?n hs b) reps)"
      by (rule Cons.IH)
    have all: "(\<forall>v \<in> set (u # hs). ?ok v) = (\<forall>v \<in> set hs. ?ok v)"
      using True by simp
    show ?thesis unfolding step ih eq all ..
  next
    case False
    have "countHost fs link u (countsOf c c reps) \<noteq> Inr x" for x
      using False assms by (cases "auxToRepLookup fs u link") (simp_all add: countHost_countsOf)
    then obtain e where "countHost fs link u (countsOf c c reps) = Inl e"
      by (cases "countHost fs link u (countsOf c c reps)") auto
    then have l: "efold (countHost fs link) (u # hs) (countsOf c c reps) = Inl e" by simp
    have r: "\<not> (\<forall>v \<in> set (u # hs). ?ok v)" using False by simp
    show ?thesis unfolding l using r by blast
  qed
qed

lemma linkCounts_Inr:
  assumes "distinct (RepAuxiliarys T)"
  shows "linkCounts T fs link = Inr cnt \<longleftrightarrow>
     (\<forall>u \<in> set (HostNodes T). \<exists>a \<in> set (RepAuxiliarys T). auxToRepLookup fs u link = Inr a)
     \<and> cnt = countsOf (hostCount T fs link) (hostCount T fs link) (RepAuxiliarys T)"
proof -
  have "hostCount T fs link =
      (\<lambda>a. 0 + length (filter (\<lambda>u. auxToRepLookup fs u link = Inr a) (HostNodes T)))"
    by (intro ext) (simp add: hostCount_def)
  then show ?thesis
    unfolding linkCounts_def initCount_countsOf [OF assms]
    using efold_countHost [OF assms, of fs link "HostNodes T" "\<lambda>a. 0" cnt] by simp
qed

lemma encodeLinkConstraint_Inr:
  assumes "distinct (RepAuxiliarys T)"
  shows "encodeLinkConstraint T fs link = Inr (l, encode) \<longleftrightarrow>
     (\<forall>u \<in> set (HostNodes T). \<exists>a \<in> set (RepAuxiliarys T). auxToRepLookup fs u link = Inr a)
     \<and> l = link
     \<and> encode = concat (map (\<lambda>a. [hostCount T fs link a, hostCount T fs link a])
                  (RepAuxiliarys T))"
proof -
  let ?R = "RepAuxiliarys T"
  let ?c = "hostCount T fs link"
  have m: "map snd (countsOf ?c ?c ?R) = concat (map (\<lambda>a. [?c a, ?c a]) ?R)"
    by (simp add: countsOf_def map_concat comp_def)
  have e: "encodeLinkConstraint T fs link = Inr (l, encode) \<longleftrightarrow>
      (\<exists>cnt. linkCounts T fs link = Inr cnt \<and> l = link \<and> encode = map snd cnt)"
    by (auto simp: encodeLinkConstraint_def split: sum.splits)
  show ?thesis unfolding e linkCounts_Inr [OF assms] m [symmetric] by blast
qed

lemma concat_pairs_eq:
  "concat (map (\<lambda>a. [f a, f a]) xs) = concat (map (\<lambda>a. [g a, g a]) xs)
     \<longleftrightarrow> (\<forall>a \<in> set xs. f a = (g a :: nat))"
  by (induction xs) auto

text \<open>
  Claim C10. Whenever \<open>encodeLinkConstraint\<close> returns a signature for a link, the dict
  \<open>count\<close> it is read from has the keys \<open>('b', a)\<close>, \<open>('g', a)\<close> for the representative
  auxiliary indices \<open>a\<close> in turn, and both entries of \<open>a\<close> hold the same number: the
  number of hosts whose auxiliary class on the link is \<open>a\<close>. Hence the signatures of two
  links are equal if and only if these per-class host counts agree for every
  representative.
\<close>

theorem encodeLinkConstraint_beta_gamma:
  assumes "distinct (RepAuxiliarys T)"
    and "encodeLinkConstraint T fs l1 = Inr (l1', e1)"
    and "encodeLinkConstraint T fs l2 = Inr (l2', e2)"
  shows "\<exists>cnt. linkCounts T fs l1 = Inr cnt \<and> e1 = map snd cnt
           \<and> map fst cnt = concat (map (\<lambda>a. [(Beta, a), (Gamma, a)]) (RepAuxiliarys T))
           \<and> (\<forall>a \<in> set (RepAuxiliarys T).
                 map_of cnt (Beta, a) = Some (hostCount T fs l1 a)
               \<and> map_of cnt (Gamma, a) = Some (hostCount T fs l1 a))
           \<and> (e1 = e2 \<longleftrightarrow>
                (\<forall>a \<in> set (RepAuxiliarys T). hostCount T fs l1 a = hostCount T fs l2 a))"
proof -
  let ?R = "RepAuxiliarys T"
  let ?cnt = "countsOf (hostCount T fs l1) (hostCount T fs l1) ?R"
  from assms(2) have hosts: "\<forall>u \<in> set (HostNodes T). \<exists>a \<in> set ?R. auxToRepLookup fs u l1 = Inr a"
    and e1: "e1 = concat (map (\<lambda>a. [hostCount T fs l1 a, hostCount T fs l1 a]) ?R)"
    by (simp_all add: encodeLinkConstraint_Inr [OF assms(1)])
  from assms(3) have e2: "e2 = concat (map (\<lambda>a. [hostCount T fs l2 a, hostCount T fs l2 a]) ?R)"
    by (simp add: encodeLinkConstraint_Inr [OF assms(1)])
  from hosts have c: "linkCounts T fs l1 = Inr ?cnt"
    by (simp add: linkCounts_Inr [OF assms(1)])
  have "e1 = map snd ?cnt" unfolding e1 by (simp add: countsOf_def map_concat comp_def)
  moreover have "map fst ?cnt = concat (map (\<lambda>a. [(Beta, a), (Gamma, a)]) ?R)"
    by (simp add: countsOf_def map_concat comp_def)
  moreover have "\<forall>a \<in> set ?R. map_of ?cnt (Beta, a) = Some (hostCount T fs l1 a)
               \<and> map_of ?cnt (Gamma, a) = Some (hostCount T fs l1 a)"
    by (simp add: map_of_countsOf)
  moreover have "e1 = e2 \<longleftrightarrow> (\<forall>a \<in> set ?R. hostCount T fs l1 a = hostCount T fs l2 a)"
    unfolding e1 e2 by (rule concat_pairs_eq)
  ultimately show ?thesis using c by blast
qed

lemma ex_linkCounts:
  "linkCounts ex_topo ex_files [0, 1] =
     Inr [((Beta, [0, 0, 1]), 1), ((Gamma, [0, 0, 1]), 1),
          ((Beta, [0, 1, 0]), 1), ((Gamma, [0, 1, 0]), 1)]"
  "linkCounts ex_topo ex_files [1, 0] =
     Inr [((Beta, [0, 0, 1]), 1), ((Gamma, [0, 0, 1]), 1),
          ((Beta, [0, 1, 0]), 1), ((Gamma, [0, 1, 0]), 1)]"
  by (simp_all add: linkCounts_def initCount_def countHost_def increment_def
      auxToRepLookup_def ex_topo_def ex_files_def)

lemma ex_encode:
  "encodeLinkConstraint ex_topo ex_files [0, 1] = Inr ([0, 1], [1, 1, 1, 1])"
  "encodeLinkConstraint ex_topo ex_files [1, 0] = Inr ([1, 0], [1, 1, 1, 1])"
  using ex_linkCounts by (simp_all add: encodeLinkConstraint_def)

theorem encodeLinkConstraint_beta_gamma_witness:
  "encodeLinkConstraint ex_topo ex_files [0, 1] = Inr ([0, 1], [1, 1, 1, 1])
   \<and> encodeLinkConstraint ex_topo ex_files [1, 0] = Inr ([1, 0], [1, 1, 1, 1])
   \<and> distinct (RepAuxiliarys ex_topo)
   \<and> hostCount ex_topo ex_files [0, 1] [0, 0, 1] = hostCount ex_topo ex_files [1, 0] [0, 0, 1]
   \<and> hostCount ex_topo ex_files [0, 1] [0, 1, 0] = hostCount ex_topo ex_files [1, 0] [0, 1, 0]"
proof -
  have d: "distinct (RepAuxiliarys ex_topo)" by (simp add: ex_topo_def)
  have R: "set (RepAuxiliarys ex_topo) = {[0, 0, 1], [0, 1, 0]}" by (simp add: ex_topo_def)
  from encodeLinkConstraint_beta_gamma [OF d ex_encode(1) ex_encode(2)]
  have "\<forall>a \<in> set (RepAuxiliarys ex_topo).
      hostCount ex_topo ex_files [0, 1] a = hostCount ex_topo ex_files [1, 0] a"
    by blast
  with R d ex_encode show ?thesis by simp
qed

lemma auxToRepMember_efold:
  assumes "\<forall>x \<in> set A. length x = 3"
  shows "\<exists>m'. efold (auxToRepMember u r) A m = Inr m'
           \<and> (\<forall>l. m' l = (if length l = 2 \<and> u # l \<in> set A then Some r else m l))"
  using assms
proof (induction A arbitrary: m)
  case Nil
  then show ?case by simp
next
  case (Cons x A)
  from Cons.prems have "length x = 3" by simp
  then obtain n i j where x: "x = [n, i, j]"
    by (cases x; cases "tl x"; cases "tl (tl x)") auto
  let ?m1 = "if n \<noteq> u then m else m([i, j] \<mapsto> r)"
  have step: "auxToRepMember u r x m = Inr ?m1" by (simp add: auxToRepMember_def x)
  from Cons.prems have "\<forall>x \<in> set A. length x = 3" by simp
  from Cons.IH [OF this, of ?m1] obtain m' where
    m': "efold (auxToRepMember u r) A ?m1 = Inr m'"
    and l: "\<forall>l. m' l = (if length l = 2 \<and> u # l \<in> set A then Some r else ?m1 l)"
    by blast
  from step m' have "efold (auxToRepMember u r) (x # A) m = Inr m'" by simp
  moreover have "\<forall>l. m' l = (if length l = 2 \<and> u # l \<in> set (x # A) then Some r else m l)"
    using l x by auto
  ultimately show ?case by blast
qed

lemma auxToRepGroup_efold:
  assumes "\<forall>r \<in> set R. \<exists>A. AuxiliaryGroup fs r = Some A \<and> (\<forall>x \<in> set A. length x = 3)"
  shows "\<exists>m'. efold (auxToRepGroup fs u) R m = Inr m'
     \<and> (\<forall>l a. m' l = Some a \<longrightarrow>
           m l = Some a \<or> (a \<in> set R \<and> (\<exists>A. AuxiliaryGroup fs a = Some A \<and> u # l \<in> set A)))
     \<and> (\<forall>l. m l \<noteq> None
             \<or> (length l = 2 \<and> (\<exists>r \<in> set R. \<exists>A. AuxiliaryGroup fs r = Some A \<and> u # l \<in> set A))
           \<longrightarrow> m' l \<noteq> None)"
  using assms
proof (induction R arbitrary: m)
  case Nil
  then show ?case by simp
next
  case (Cons r R)
  from Cons.prems obtain A where A: "AuxiliaryGroup fs r = Some A"
    and len: "\<forall>x \<in> set A. length x = 3" by auto
  from auxToRepMember_efold [OF len, of u r m] obtain m1 where
    m1: "efold (auxToRepMember u r) A m = Inr m1"
    and l1: "\<forall>l. m1 l = (if length l = 2 \<and> u # l \<in> set A then Some r else m l)"
    by blast
  from Cons.prems have "\<forall>r \<in> set R. \<exists>A. AuxiliaryGroup fs r = Some A \<and> (\<forall>x \<in> set A. length x = 3)"
    by simp
  from Cons.IH [OF this, of m1] obtain m' where
    m': "efold (auxToRepGroup fs u) R m1 = Inr m'"
    and snd: "\<forall>l a. m' l = Some a \<longrightarrow>
           m1 l = Some a \<or> (a \<in> set R \<and> (\<exists>A. AuxiliaryGroup fs a = Some A \<and> u # l \<in> set A))"
    and cmp: "\<forall>l. m1 l \<noteq> None
             \<or> (length l = 2 \<and> (\<exists>r \<in> set R. \<exists>A. AuxiliaryGroup fs r = Some A \<and> u # l \<in> set A))
           \<longrightarrow> m' l \<noteq> None"
    by blast
  have run: "efold (auxToRepGroup fs u) (r # R) m = Inr m'"
    using A m1 m' by (simp add: auxToRepGroup_def)
  have s: "\<forall>l a. m' l = Some a \<longrightarrow>
           m l = Some a \<or> (a \<in> set (r # R) \<and> (\<exists>A. AuxiliaryGroup fs a = Some A \<and> u # l \<in> set A))"
  proof (intro allI impI)
    fix l a assume "m' l = Some a"
    with snd have "m1 l = Some a \<or> (a \<in> set R \<and> (\<exists>A. AuxiliaryGroup fs a = Some A \<and> u # l \<in> set A))"
      by blast
    then show "m l = Some a \<or> (a \<in> set (r # R) \<and> (\<exists>A. AuxiliaryGroup fs a = Some A \<and> u # l \<in> set A))"
      using l1 A by (auto split: if_splits)
  qed
  have c: "\<forall>l. m l \<noteq> None
             \<or> (length l = 2 \<and> (\<exists>q \<in> set (r # R). \<exists>A. AuxiliaryGroup fs q = Some A \<and> u # l \<in> set A))
           \<longrightarrow> m' l \<noteq> None"
  proof (intro allI impI)
    fix l
    assume h: "m l \<noteq> None
       \<or> (length l = 2 \<and> (\<exists>q \<in> set (r # R). \<exists>A. AuxiliaryGroup fs q = Some A \<and> u # l \<in> set A))"
    have "m1 l \<noteq> None
       \<or> (length l = 2 \<and> (\<exists>q \<in> set R. \<exists>A. AuxiliaryGroup fs q = Some A \<and> u # l \<in> set A))"
      using h l1 A by auto
    with cmp show "m' l \<noteq> None" by blast
  qed
  from run s c show ?case by blast
qed

lemma auxToRepGroup_cong:
  "AuxiliaryGroup fs' = AuxiliaryGroup fs \<Longrightarrow> auxToRepGroup fs' u = auxToRepGroup fs u"
  by (intro ext) (simp add: auxToRepGroup_def)

lemma computeAuxReverseMap_efold:
  assumes "\<forall>r \<in> set (RepAuxiliarys T). \<exists>A. AuxiliaryGroup fs r = Some A \<and> (\<forall>x \<in> set A. length x = 3)"
  shows "AuxiliaryGroup fs0 = AuxiliaryGroup fs \<Longrightarrow>
    \<exists>fs'. efold (auxToRepHost T) hs fs0 = Inr fs' \<and> AuxiliaryGroup fs' = AuxiliaryGroup fs
      \<and> (\<forall>u. u \<notin> set hs \<longrightarrow> AuxToRep fs' u = AuxToRep fs0 u)
      \<and> (\<forall>u \<in> set hs. \<exists>m. AuxToRep fs' u = Some m
             \<and> efold (auxToRepGroup fs u) (RepAuxiliarys T) Map.empty = Inr m)"
proof (induction hs arbitrary: fs0)
  case Nil
  then show ?case by simp
next
  case (Cons h hs)
  from auxToRepGroup_efold [OF assms, of h Map.empty] obtain m where
    m: "efold (auxToRepGroup fs h) (RepAuxiliarys T) Map.empty = Inr m" by blast
  let ?fs1 = "fs0\<lparr>AuxToRep := (AuxToRep fs0)(h \<mapsto> m)\<rparr>"
  from m have step: "auxToRepHost T h fs0 = Inr ?fs1"
    by (simp add: auxToRepHost_def auxToRepGroup_cong [OF Cons.prems])
  from Cons.prems have "AuxiliaryGroup ?fs1 = AuxiliaryGroup fs" by simp
  from Cons.IH [OF this] obtain fs' where
    run: "efold (auxToRepHost T) hs ?fs1 = Inr fs'" and g: "AuxiliaryGroup fs' = AuxiliaryGroup fs"
    and out: "\<forall>u. u \<notin> set hs \<longrightarrow> AuxToRep fs' u = AuxToRep ?fs1 u"
    and ins: "\<forall>u \<in> set hs. \<exists>m. AuxToRep fs' u = Some m
             \<and> efold (auxToRepGroup fs u) (RepAuxiliarys T) Map.empty = Inr m"
    by blast
  from step run have "efold (auxToRepHost T) (h # hs) fs0 = Inr fs'" by simp
  moreover have "\<forall>u. u \<notin> set (h # hs) \<longrightarrow> AuxToRep fs' u = AuxToRep fs0 u"
    using out by auto
  moreover have "\<forall>u \<in> set (h # hs). \<exists>m. AuxToRep fs' u = Some m
             \<and> efold (auxToRepGroup fs u) (RepAuxiliarys T) Map.empty = Inr m"
  proof
    fix u assume "u \<in> set (h # hs)"
    show "\<exists>m. AuxToRep fs' u = Some m
             \<and> efold (auxToRepGroup fs u) (RepAuxiliarys T) Map.empty = Inr m"
    proof (cases "u \<in> set hs")
      case True
      with ins show ?thesis by blast
    next
      case False
      with \<open>u \<in> set (h # hs)\<close> have "u = h" by simp
      with False out m show ?thesis by auto
    qed
  qed
  ultimately show ?case using g by blast
qed

lemma auxindice_Inr:
  assumes "topology_in_range T"
  shows "\<exists>idx. auxindice T = Inr idx
           \<and> set idx = {u # l | u l. u \<in> set (HostNodes T) \<and> l \<in> set (DLinks T)}
           \<and> set idx \<subseteq> tuples (number_of_nodes T) 3"
proof -
  let ?idx = "sort (concat (map (\<lambda>u. map (\<lambda>l. u # l) (DLinks T)) (HostNodes T)))"
  from assms have "auxindice T = Inr ?idx"
    by (auto simp: auxindice_def topology_in_range_def)
  moreover have s: "set ?idx = {u # l | u l. u \<in> set (HostNodes T) \<and> l \<in> set (DLinks T)}"
    by auto
  moreover have "set ?idx \<subseteq> tuples (number_of_nodes T) 3"
    unfolding s using assms by (auto simp: topology_in_range_def tuples_def in_range_def)
  ultimately show ?thesis by blast
qed

lemma orbitInv_empty: "orbitInv N k gens (set []) [] G"
  by (simp add: orbitInv_def)

lemma findRepresentativeAuxs_correct:
  assumes "topology_in_range T" and "Stage fs ''findRepresentativeAuxs'' = None"
  shows "\<exists>R G V fs'. findRepresentativeAuxs pick T fs
             = Some (Inr (T\<lparr>RepAuxiliarys := R\<rparr>, fs'))
           \<and> AuxiliaryGroup fs' = G
           \<and> orbitInv (number_of_nodes T) 3 (Autgen T) V R G
           \<and> (\<forall>u \<in> set (HostNodes T). \<forall>l \<in> set (DLinks T). u # l \<in> V)"
proof -
  let ?N = "number_of_nodes T"
  from auxindice_Inr [OF assms(1)] obtain idx where idx: "auxindice T = Inr idx"
    and sidx: "set idx = {u # l | u l. u \<in> set (HostNodes T) \<and> l \<in> set (DLinks T)}"
    and sub: "set idx \<subseteq> tuples ?N 3" by blast
  from assms(1) have wf: "gens_in_range ?N (Autgen T)" by (simp add: topology_in_range_def)
  from auxLoop_correct [OF wf sub orbitInv_empty, of pick "AuxiliaryGroup fs"]
  obtain V R G where
    run: "auxLoop pick (Autgen T) idx ([], [], AuxiliaryGroup fs) = Some (Inr (V, R, G))"
    and inv: "orbitInv ?N 3 (Autgen T) (set V) R G" and cov: "set idx \<subseteq> set V"
    by auto
  let ?fs' = "fs\<lparr>AuxiliaryGroup := G,
                   Stage := (Stage fs)(''findRepresentativeAuxs'' \<mapsto> R)\<rparr>"
  from idx run assms(2) have "findRepresentativeAuxs pick T fs
      = Some (Inr (T\<lparr>RepAuxiliarys := R\<rparr>, ?fs'))"
    by (simp add: findRepresentativeAuxs_def)
  moreover have "AuxiliaryGroup ?fs' = G" by simp
  moreover from cov sidx have "\<forall>u \<in> set (HostNodes T). \<forall>l \<in> set (DLinks T). u # l \<in> set V"
    by auto
  ultimately show ?thesis using inv by blast
qed

lemma orbitInv_length:
  assumes "orbitInv N k gens V R G"
  shows "\<forall>r \<in> set R. \<exists>A. G r = Some A \<and> (\<forall>x \<in> set A. length x = k)"
proof
  fix r assume "r \<in> set R"
  with assms obtain A where "G r = Some A" "set A \<subseteq> V" unfolding orbitInv_def by blast
  moreover from assms have "V \<subseteq> tuples N k" unfolding orbitInv_def by blast
  ultimately show "\<exists>A. G r = Some A \<and> (\<forall>x \<in> set A. length x = k)"
    by (auto simp: tuples_def)
qed

text \<open>
  What the two precomputation steps leave behind: representatives \<open>R\<close>, orbit files
  \<open>G\<close> covering every auxiliary index, and a reverse map per host that sends a link
  to a representative whose orbit holds the host's index on that link.
\<close>

lemma aux_pipeline:
  assumes "topology_in_range T" and "Stage fs ''findRepresentativeAuxs'' = None"
  shows "\<exists>R G V fs' fs''.
      findRepresentativeAuxs pick T fs = Some (Inr (T\<lparr>RepAuxiliarys := R\<rparr>, fs'))
    \<and> computeAuxReverseMap (T\<lparr>RepAuxiliarys := R\<rparr>) fs' = Inr fs''
    \<and> orbitInv (number_of_nodes T) 3 (Autgen T) V R G
    \<and> (\<forall>u \<in> set (HostNodes T). \<forall>l \<in> set (DLinks T). u # l \<in> V)
    \<and> (\<forall>u \<in> set (HostNodes T). \<forall>l. length l = 2 \<and> u # l \<in> V \<longrightarrow>
          (\<exists>a A. auxToRepLookup fs'' u l = Inr a \<and> a \<in> set R \<and> G a = Some A \<and> u # l \<in> set A))"
proof -
  let ?N = "number_of_nodes T"
  from findRepresentativeAuxs_correct [OF assms, of pick] obtain R G V fs' where
    run: "findRepresentativeAuxs pick T fs = Some (Inr (T\<lparr>RepAuxiliarys := R\<rparr>, fs'))"
    and G: "AuxiliaryGroup fs' = G"
    and inv: "orbitInv ?N 3 (Autgen T) V R G"
    and cov: "\<forall>u \<in> set (HostNodes T). \<forall>l \<in> set (DLinks T). u # l \<in> V"
    by blast
  let ?T = "T\<lparr>RepAuxiliarys := R\<rparr>"
  from orbitInv_length [OF inv] G
  have len: "\<forall>r \<in> set (RepAuxiliarys ?T). \<exists>A. AuxiliaryGroup fs' r = Some A
      \<and> (\<forall>x \<in> set A. length x = 3)" by simp
  from computeAuxReverseMap_efold [OF len refl, of "HostNodes ?T"] obtain fs'' where
    c: "computeAuxReverseMap ?T fs' = Inr fs''"
    and m: "\<forall>u \<in> set (HostNodes T). \<exists>m. AuxToRep fs'' u = Some m
             \<and> efold (auxToRepGroup fs' u) R Map.empty = Inr m"
    by (auto simp: computeAuxReverseMap_def)
  have "\<exists>a A. auxToRepLookup fs'' u l = Inr a \<and> a \<in> set R \<and> G a = Some A \<and> u # l \<in> set A"
    if u: "u \<in> set (HostNodes T)" and l: "length l = 2" "u # l \<in> V" for u l
  proof -
    from m u obtain mu where mu: "AuxToRep fs'' u = Some mu"
      and e: "efold (auxToRepGroup fs' u) R Map.empty = Inr mu" by blast
    from auxToRepGroup_efold [OF len, of u Map.empty] e G
    have snd: "\<forall>l a. mu l = Some a \<longrightarrow> a \<in> set R \<and> (\<exists>A. G a = Some A \<and> u # l \<in> set A)"
      and cmp: "\<forall>l. length l = 2 \<and> (\<exists>r \<in> set R. \<exists>A. G r = Some A \<and> u # l \<in> set A)
           \<longrightarrow> mu l \<noteq> None"
      by auto
    from inv l(2) have "\<exists>r \<in> set R. \<exists>A. G r = Some A \<and> u # l \<in> set A"
      unfolding orbitInv_def by blast
    with cmp l(1) obtain a where a: "mu l = Some a" by blast
    with snd obtain A where "a \<in> set R" "G a = Some A" "u # l \<in> set A" by blast
    with mu a show ?thesis by (auto simp: auxToRepLookup_def)
  qed
  with run c inv cov show ?thesis by blast
qed

subsection \<open>The lookups of the optimization model\<close>

lemma efold_success:
  assumes "\<And>x s. x \<in> set xs \<Longrightarrow> \<exists>s'. f x s = Inr s'"
  shows "\<exists>s'. efold f xs s = Inr s'"
  using assms
proof (induction xs arbitrary: s)
  case Nil
  show ?case by simp
next
  case (Cons x xs)
  from Cons.prems [of x s] obtain t where t: "f x s = Inr t" by auto
  have "\<exists>s'. efold f xs t = Inr s'"
    by (rule Cons.IH) (simp add: Cons.prems)
  with t show ?case by simp
qed

lemma createAuxVar_efold:
  assumes "\<forall>r \<in> set R. length r = 3"
  shows "\<exists>m'. efold (createAuxVar mk) R m = Inr m'
      \<and> (\<forall>r. r \<in> set R \<or> r \<in> dom m \<longrightarrow> r \<in> dom m')"
  using assms
proof (induction R arbitrary: m)
  case Nil
  show ?case by simp
next
  case (Cons a R)
  from Cons.prems have step: "createAuxVar mk a m = Inr (m(a \<mapsto> mk a))"
    by (simp add: createAuxVar_def)
  from Cons.prems have "\<forall>r \<in> set R. length r = 3" by simp
  from Cons.IH [OF this, of "m(a \<mapsto> mk a)"] obtain m' where
    e: "efold (createAuxVar mk) R (m(a \<mapsto> mk a)) = Inr m'"
    and d: "\<forall>r. r \<in> set R \<or> r \<in> dom (m(a \<mapsto> mk a)) \<longrightarrow> r \<in> dom m'" by blast
  from d have "\<forall>r. r \<in> set (a # R) \<or> r \<in> dom m \<longrightarrow> r \<in> dom m'" by auto
  with step e show ?case by simp
qed

lemma createFlowVar_efold:
  assumes "\<forall>l \<in> set links. \<exists>c. capacity T l = Inr c" and "2 \<le> length repsd"
  shows "\<exists>m'. efold (createFlowVar T repsd) links m = Inr m'
      \<and> (\<forall>l. l \<in> set links \<or> l \<in> dom m \<longrightarrow> l \<in> dom m')"
  using assms(1)
proof (induction links arbitrary: m)
  case Nil
  show ?case by simp
next
  case (Cons a links)
  from Cons.prems assms(2)
  have step: "createFlowVar T repsd a m = Inr (m(a \<mapsto> F_var repsd a))"
    by (auto simp: createFlowVar_def ebind_def)
  from Cons.prems have "\<forall>l \<in> set links. \<exists>c. capacity T l = Inr c" by simp
  from Cons.IH [OF this, of "m(a \<mapsto> F_var repsd a)"] obtain m' where
    e: "efold (createFlowVar T repsd) links (m(a \<mapsto> F_var repsd a)) = Inr m'"
    and d: "\<forall>l. l \<in> set links \<or> l \<in> dom (m(a \<mapsto> F_var repsd a)) \<longrightarrow> l \<in> dom m'" by blast
  from d have "\<forall>l. l \<in> set (a # links) \<or> l \<in> dom m \<longrightarrow> l \<in> dom m'" by auto
  with step e show ?case by simp
qed

lemma createFlowVars_efold:
  assumes "\<forall>repsd \<in> set RC. 2 \<le> length repsd
      \<and> (\<exists>links. RepCommFlowLinks T repsd = Some links
            \<and> (\<forall>l \<in> set links. \<exists>c. capacity T l = Inr c))"
  shows "\<exists>Fm'. efold (createFlowVars T) RC Fm = Inr Fm'
      \<and> (\<forall>repsd \<in> set RC. \<exists>Fr links. Fm' repsd = Some Fr
            \<and> RepCommFlowLinks T repsd = Some links \<and> set links \<subseteq> dom Fr)"
proof -
  let ?good = "\<lambda>Fm repsd. \<exists>Fr links. Fm repsd = Some Fr
            \<and> RepCommFlowLinks T repsd = Some links \<and> set links \<subseteq> dom Fr"
  have "\<exists>Fm'. efold (createFlowVars T) RC Fm = Inr Fm'
      \<and> (\<forall>repsd. repsd \<in> set RC \<or> ?good Fm repsd \<longrightarrow> ?good Fm' repsd)"
    using assms
  proof (induction RC arbitrary: Fm)
    case Nil
    show ?case by simp
  next
    case (Cons a RC)
    from Cons.prems obtain links where len: "2 \<le> length a"
      and links: "RepCommFlowLinks T a = Some links"
      and cap: "\<forall>l \<in> set links. \<exists>c. capacity T l = Inr c" by auto
    from createFlowVar_efold [OF cap len, of Map.empty] obtain Fr where
      fr: "efold (createFlowVar T a) links Map.empty = Inr Fr" and d: "set links \<subseteq> dom Fr"
      by blast
    from links fr have step: "createFlowVars T a Fm = Inr (Fm(a \<mapsto> Fr))"
      by (simp add: createFlowVars_def ebind_def)
    from links d have ga: "?good (Fm(a \<mapsto> Fr)) a" by simp
    from Cons.prems have "\<forall>repsd \<in> set RC. 2 \<le> length repsd
      \<and> (\<exists>links. RepCommFlowLinks T repsd = Some links
            \<and> (\<forall>l \<in> set links. \<exists>c. capacity T l = Inr c))" by simp
    from Cons.IH [OF this, of "Fm(a \<mapsto> Fr)"] obtain Fm' where
      e: "efold (createFlowVars T) RC (Fm(a \<mapsto> Fr)) = Inr Fm'"
      and g: "\<forall>repsd. repsd \<in> set RC \<or> ?good (Fm(a \<mapsto> Fr)) repsd \<longrightarrow> ?good Fm' repsd"
      by blast
    have "?good Fm' repsd" if "repsd \<in> set (a # RC) \<or> ?good Fm repsd" for repsd
    proof (cases "repsd = a")
      case True
      with ga g show ?thesis by blast
    next
      case False
      with that have "repsd \<in> set RC \<or> ?good (Fm(a \<mapsto> Fr)) repsd" by simp
      with g show ?thesis by blast
    qed
    with step e show ?case by simp
  qed
  then show ?thesis by blast
qed

lemma createVariables_Inr:
  assumes "\<forall>repsd \<in> set (RepCommodities (Topo opt)). 2 \<le> length repsd
      \<and> (\<exists>links. RepCommFlowLinks (Topo opt) repsd = Some links
            \<and> (\<forall>l \<in> set links. \<exists>c. capacity (Topo opt) l = Inr c))"
    and "\<forall>r \<in> set (RepAuxiliarys (Topo opt)). length r = 3"
  shows "\<exists>opt'. createVariables opt = Inr opt' \<and> Topo opt' = Topo opt
      \<and> (\<forall>repsd \<in> set (RepCommodities (Topo opt)). \<exists>Fr links. F opt' repsd = Some Fr
            \<and> RepCommFlowLinks (Topo opt) repsd = Some links \<and> set links \<subseteq> dom Fr)
      \<and> set (RepAuxiliarys (Topo opt)) \<subseteq> dom (opt_B opt')
      \<and> set (RepAuxiliarys (Topo opt)) \<subseteq> dom (opt_G opt')"
proof -
  from createFlowVars_efold [OF assms(1), of Map.empty] obtain Fm where
    f: "efold (createFlowVars (Topo opt)) (RepCommodities (Topo opt)) Map.empty = Inr Fm"
    and fg: "\<forall>repsd \<in> set (RepCommodities (Topo opt)). \<exists>Fr links. Fm repsd = Some Fr
            \<and> RepCommFlowLinks (Topo opt) repsd = Some links \<and> set links \<subseteq> dom Fr"
    by blast
  from createAuxVar_efold [OF assms(2), of B_var Map.empty] obtain Bm where
    b: "efold (createAuxVar B_var) (RepAuxiliarys (Topo opt)) Map.empty = Inr Bm"
    and bd: "set (RepAuxiliarys (Topo opt)) \<subseteq> dom Bm" by blast
  from createAuxVar_efold [OF assms(2), of G_var Map.empty] obtain Gm where
    g: "efold (createAuxVar G_var) (RepAuxiliarys (Topo opt)) Map.empty = Inr Gm"
    and gd: "set (RepAuxiliarys (Topo opt)) \<subseteq> dom Gm" by blast
  from f b g have "createVariables opt = Inr (opt\<lparr>F := Fm, opt_B := Bm, opt_G := Gm\<rparr>)"
    by (simp add: createVariables_def ebind_def)
  with fg bd gd show ?thesis by simp
qed

lemma numServer_Inr:
  assumes "u \<in> fst ` set (UG_nodes T)"
  shows "\<exists>n. numServer T u = Inr n"
proof -
  from assms have "map_of (UG_nodes T) u \<noteq> None" by (simp add: map_of_eq_None_iff)
  then show ?thesis by (auto simp: numServer_def split: prod.splits)
qed

lemma setAuxThroughputConstraint_Inr:
  assumes "\<forall>l \<in> set (RepLinkConstrs (Topo opt)). length l = 2
      \<and> (\<forall>u \<in> set (HostNodes (Topo opt)). \<exists>a. auxToRepLookup fs u l = Inr a
            \<and> a \<in> dom (opt_B opt) \<and> a \<in> dom (opt_G opt))"
    and "\<forall>u \<in> set (HostNodes (Topo opt)). u \<in> fst ` set (UG_nodes (Topo opt))"
  shows "\<exists>tc. setAuxThroughputConstraint opt fs = Inr tc"
  unfolding setAuxThroughputConstraint_def
proof (rule efold_success)
  fix l cs assume l: "l \<in> set (RepLinkConstrs (Topo opt))"
  with assms(1) have "length l = 2" by blast
  then obtain i j where ij: "l = [i, j]"
    by (metis length_0_conv length_Suc_conv numeral_2_eq_2)
  have "\<exists>lhs. efold (auxtcHost opt fs i j) (HostNodes (Topo opt)) [] = Inr lhs"
  proof (rule efold_success)
    fix u lhs assume u: "u \<in> set (HostNodes (Topo opt))"
    with assms(1) l ij obtain a b g where "auxToRepLookup fs u [i, j] = Inr a"
      "opt_B opt a = Some b" "opt_G opt a = Some g" by blast
    moreover from numServer_Inr assms(2) u obtain n where "numServer (Topo opt) u = Inr n"
      by blast
    ultimately show "\<exists>lhs'. auxtcHost opt fs i j u lhs = Inr lhs'"
      by (simp add: auxtcHost_def ebind_def)
  qed
  with ij show "\<exists>cs'. auxtcLink opt fs l cs = Inr cs'"
    by (auto simp: auxtcLink_def ebind_def)
qed

lemma auxfcLink_Inr:
  assumes "capacity (Topo opt) l = Inr c" and "c \<noteq> 0" and "repsd = [s, d]"
    and "auxToRepLookup fs s l = Inr a" and "a \<in> dom (opt_B opt)"
    and "auxToRepLookup fs d l = Inr a'" and "a' \<in> dom (opt_G opt)"
    and "F opt repsd = Some Fr" and "l \<in> dom Fr"
  shows "\<exists>cs'. auxfcLink opt fs repsd l cs = Inr cs'"
proof -
  from assms(1) have "length l = 2"
    by (auto simp: capacity_def split: list.splits)
  with assms show ?thesis
    by (auto simp: auxfcLink_def ebind_def getitem_def)
qed

lemma setAuxFlowConstraint_Inr:
  assumes "\<forall>repsd \<in> set (RepCommodities (Topo opt)). length repsd = 2
      \<and> (\<exists>Fr links. F opt repsd = Some Fr \<and> RepCommFlowLinks (Topo opt) repsd = Some links
            \<and> set links \<subseteq> dom Fr
            \<and> (\<forall>l \<in> set links. (\<exists>c. capacity (Topo opt) l = Inr c \<and> c \<noteq> 0)
                  \<and> (\<forall>u \<in> set repsd. \<exists>a. auxToRepLookup fs u l = Inr a
                        \<and> a \<in> dom (opt_B opt) \<and> a \<in> dom (opt_G opt))))"
  shows "\<exists>fc. setAuxFlowConstraint opt fs = Inr fc"
  unfolding setAuxFlowConstraint_def
proof (rule efold_success)
  fix repsd cs assume r: "repsd \<in> set (RepCommodities (Topo opt))"
  with assms obtain Fr links where len: "length repsd = 2"
    and Fr: "F opt repsd = Some Fr" and links: "RepCommFlowLinks (Topo opt) repsd = Some links"
    and d: "set links \<subseteq> dom Fr"
    and each: "\<forall>l \<in> set links. (\<exists>c. capacity (Topo opt) l = Inr c \<and> c \<noteq> 0)
                  \<and> (\<forall>u \<in> set repsd. \<exists>a. auxToRepLookup fs u l = Inr a
                        \<and> a \<in> dom (opt_B opt) \<and> a \<in> dom (opt_G opt))"
    by blast
  from len obtain s t where sd: "repsd = [s, t]"
    by (metis length_0_conv length_Suc_conv numeral_2_eq_2)
  have "\<exists>cs'. efold (auxfcLink opt fs repsd) links cs = Inr cs'"
  proof (rule efold_success)
    fix l cs0 assume l: "l \<in> set links"
    with each obtain c where c: "capacity (Topo opt) l = Inr c" "c \<noteq> 0" by blast
    from each l sd
    have "\<exists>a. auxToRepLookup fs s l = Inr a \<and> a \<in> dom (opt_B opt) \<and> a \<in> dom (opt_G opt)"
      and "\<exists>a. auxToRepLookup fs t l = Inr a \<and> a \<in> dom (opt_B opt) \<and> a \<in> dom (opt_G opt)"
      by simp_all
    then obtain a a' where a: "auxToRepLookup fs s l = Inr a" "a \<in> dom (opt_B opt)"
      and a': "auxToRepLookup fs t l = Inr a'" "a' \<in> dom (opt_G opt)"
      by blast
    from l d have "l \<in> dom Fr" by blast
    from auxfcLink_Inr [OF c sd a a' Fr this]
    show "\<exists>cs'. auxfcLink opt fs repsd l cs0 = Inr cs'" .
  qed
  with links show "\<exists>cs'. auxfcCommodity opt fs repsd cs = Inr cs'"
    by (simp add: auxfcCommodity_def)
qed

text \<open>
  With the auxiliary map total and the representative sets in their domains, the variables
  can be created and both families of auxiliary constraints can be added.
\<close>

lemma aux_callers_Inr:
  assumes ok: "representatives_ok T"
    and look: "\<forall>u \<in> set (HostNodes T). \<forall>l \<in> set (DLinks T).
          \<exists>a. auxToRepLookup fs u l = Inr a \<and> a \<in> set (RepAuxiliarys T)"
    and len: "\<forall>r \<in> set (RepAuxiliarys T). length r = 3"
    and dl: "\<forall>l \<in> set (DLinks T). length l = 2"
    and T: "Topo opt = T"
  shows "\<exists>opt' tc fc. createVariables opt = Inr opt'
      \<and> setAuxThroughputConstraint opt' fs = Inr tc
      \<and> setAuxFlowConstraint opt' fs = Inr fc"
proof -
  from ok have rl: "\<forall>l \<in> set (RepLinkConstrs T). l \<in> set (DLinks T)"
    and rc: "\<forall>repsd \<in> set (RepCommodities T).
         length repsd = 2 \<and> (\<forall>n \<in> set repsd. n \<in> set (HostNodes T))
       \<and> (case RepCommFlowLinks T repsd of
             None \<Rightarrow> False
           | Some links \<Rightarrow> \<forall>l \<in> set links. l \<in> set (DLinks T))"
    and hn: "\<forall>u \<in> set (HostNodes T). u \<in> fst ` set (UG_nodes T)"
    and cp: "\<forall>l \<in> set (DLinks T). case capacity T l of Inl e \<Rightarrow> False | Inr c \<Rightarrow> c \<noteq> 0"
    unfolding representatives_ok_def by blast+
  have cap: "\<exists>c. capacity T l = Inr c \<and> c \<noteq> 0" if "l \<in> set (DLinks T)" for l
  proof -
    from cp that have "case capacity T l of Inl e \<Rightarrow> False | Inr c \<Rightarrow> c \<noteq> 0" by blast
    then show ?thesis by (cases "capacity T l") auto
  qed
  have fl: "\<exists>links. RepCommFlowLinks T repsd = Some links
      \<and> (\<forall>l \<in> set links. l \<in> set (DLinks T))"
    if "repsd \<in> set (RepCommodities T)" for repsd
    using rc that by (auto split: option.splits)
  have a1: "\<forall>repsd \<in> set (RepCommodities (Topo opt)). 2 \<le> length repsd
      \<and> (\<exists>links. RepCommFlowLinks (Topo opt) repsd = Some links
            \<and> (\<forall>l \<in> set links. \<exists>c. capacity (Topo opt) l = Inr c))"
  proof
    fix repsd assume r: "repsd \<in> set (RepCommodities (Topo opt))"
    with fl T obtain links where "RepCommFlowLinks T repsd = Some links"
      "\<forall>l \<in> set links. l \<in> set (DLinks T)" by blast
    moreover from rc r T have "2 \<le> length repsd" by simp
    ultimately show "2 \<le> length repsd
      \<and> (\<exists>links. RepCommFlowLinks (Topo opt) repsd = Some links
            \<and> (\<forall>l \<in> set links. \<exists>c. capacity (Topo opt) l = Inr c))"
      using cap T by blast
  qed
  from len T have a2: "\<forall>r \<in> set (RepAuxiliarys (Topo opt)). length r = 3" by simp
  from createVariables_Inr [OF a1 a2] T obtain opt' where
    cv: "createVariables opt = Inr opt'" and T': "Topo opt' = T"
    and Fg: "\<forall>repsd \<in> set (RepCommodities T). \<exists>Fr links. F opt' repsd = Some Fr
            \<and> RepCommFlowLinks T repsd = Some links \<and> set links \<subseteq> dom Fr"
    and Bd: "set (RepAuxiliarys T) \<subseteq> dom (opt_B opt')"
    and Gd: "set (RepAuxiliarys T) \<subseteq> dom (opt_G opt')"
    by auto
  have lk: "\<exists>a. auxToRepLookup fs u l = Inr a \<and> a \<in> dom (opt_B opt') \<and> a \<in> dom (opt_G opt')"
    if "u \<in> set (HostNodes T)" "l \<in> set (DLinks T)" for u l
    using look that Bd Gd by blast
  have "\<forall>l \<in> set (RepLinkConstrs (Topo opt')). length l = 2
      \<and> (\<forall>u \<in> set (HostNodes (Topo opt')). \<exists>a. auxToRepLookup fs u l = Inr a
            \<and> a \<in> dom (opt_B opt') \<and> a \<in> dom (opt_G opt'))"
    using rl dl lk T' by simp
  moreover from hn T'
  have "\<forall>u \<in> set (HostNodes (Topo opt')). u \<in> fst ` set (UG_nodes (Topo opt'))" by simp
  ultimately obtain tc where tc: "setAuxThroughputConstraint opt' fs = Inr tc"
    using setAuxThroughputConstraint_Inr by blast
  have "\<forall>repsd \<in> set (RepCommodities (Topo opt')). length repsd = 2
      \<and> (\<exists>Fr links. F opt' repsd = Some Fr \<and> RepCommFlowLinks (Topo opt') repsd = Some links
            \<and> set links \<subseteq> dom Fr
            \<and> (\<forall>l \<in> set links. (\<exists>c. capacity (Topo opt') l = Inr c \<and> c \<noteq> 0)
                  \<and> (\<forall>u \<in> set repsd. \<exists>a. auxToRepLookup fs u l = Inr a
                        \<and> a \<in> dom (opt_B opt') \<and> a \<in> dom (opt_G opt'))))"
  proof
    fix repsd assume "repsd \<in> set (RepCommodities (Topo opt'))"
    with T' have r: "repsd \<in> set (RepCommodities T)" by simp
    from Fg r obtain Fr links where Fr: "F opt' repsd = Some Fr"
      and links: "RepCommFlowLinks T repsd = Some links" and d: "set links \<subseteq> dom Fr" by blast
    from fl [OF r] links have ld: "\<forall>l \<in> set links. l \<in> set (DLinks T)" by simp
    from rc r have l2: "length repsd = 2" and h: "\<forall>n \<in> set repsd. n \<in> set (HostNodes T)"
      by auto
    have "\<forall>l \<in> set links. (\<exists>c. capacity (Topo opt') l = Inr c \<and> c \<noteq> 0)
                  \<and> (\<forall>u \<in> set repsd. \<exists>a. auxToRepLookup fs u l = Inr a
                        \<and> a \<in> dom (opt_B opt') \<and> a \<in> dom (opt_G opt'))"
      using ld cap lk h T' by simp
    with Fr links d l2 T'
    show "length repsd = 2
      \<and> (\<exists>Fr links. F opt' repsd = Some Fr \<and> RepCommFlowLinks (Topo opt') repsd = Some links
            \<and> set links \<subseteq> dom Fr
            \<and> (\<forall>l \<in> set links. (\<exists>c. capacity (Topo opt') l = Inr c \<and> c \<noteq> 0)
                  \<and> (\<forall>u \<in> set repsd. \<exists>a. auxToRepLookup fs u l = Inr a
                        \<and> a \<in> dom (opt_B opt') \<and> a \<in> dom (opt_G opt'))))"
      by simp
  qed
  then obtain fc where "setAuxFlowConstraint opt' fs = Inr fc"
    using setAuxFlowConstraint_Inr by blast
  with cv tc show ?thesis by blast
qed

text \<open>
  Claim C9. On a topology in range and with no stage checkpoint of
  \<open>findRepresentativeAuxs\<close>, for every order in which \<open>tovisit.pop()\<close> returns the
  elements, \<open>findRepresentativeAuxs\<close> ends and \<open>computeAuxReverseMap\<close> returns; afterwards
  the lookup \<open>loadAuxToRep(u)[link]\<close> succeeds for every host \<open>u\<close> and every directed link
  and yields a member of the representative auxiliary set. Consequently
  \<open>encodeLinkConstraint\<close> returns on every directed link, and, whatever representative link
  constraints are chosen afterwards, when the representative sets lie in their domains
  (\<open>representatives_ok\<close>), \<open>createVariables\<close>, \<open>setAuxThroughputConstraint\<close> and
  \<open>setAuxFlowConstraint\<close> return without an exception: none of their lookups fails.
\<close>

theorem computeAuxReverseMap_total:
  assumes "topology_in_range T" and "Stage fs ''findRepresentativeAuxs'' = None"
  shows "\<exists>T' fs' fs''.
      findRepresentativeAuxs pick T fs = Some (Inr (T', fs'))
    \<and> computeAuxReverseMap T' fs' = Inr fs''
    \<and> (\<forall>u \<in> set (HostNodes T). \<forall>l \<in> set (DLinks T).
          \<exists>a. auxToRepLookup fs'' u l = Inr a \<and> a \<in> set (RepAuxiliarys T'))
    \<and> (\<forall>l \<in> set (DLinks T). \<exists>encode. encodeLinkConstraint T' fs'' l = Inr (l, encode))
    \<and> (\<forall>RL opt. Topo opt = T'\<lparr>RepLinkConstrs := RL\<rparr> \<and> representatives_ok (Topo opt) \<longrightarrow>
          (\<exists>opt' tc fc. createVariables opt = Inr opt'
              \<and> setAuxThroughputConstraint opt' fs'' = Inr tc
              \<and> setAuxFlowConstraint opt' fs'' = Inr fc))"
proof -
  from aux_pipeline [OF assms, of pick] obtain R G V fs' fs'' where
    run: "findRepresentativeAuxs pick T fs = Some (Inr (T\<lparr>RepAuxiliarys := R\<rparr>, fs'))"
    and c: "computeAuxReverseMap (T\<lparr>RepAuxiliarys := R\<rparr>) fs' = Inr fs''"
    and inv: "orbitInv (number_of_nodes T) 3 (Autgen T) V R G"
    and cov: "\<forall>u \<in> set (HostNodes T). \<forall>l \<in> set (DLinks T). u # l \<in> V"
    and lk: "\<forall>u \<in> set (HostNodes T). \<forall>l. length l = 2 \<and> u # l \<in> V \<longrightarrow>
          (\<exists>a A. auxToRepLookup fs'' u l = Inr a \<and> a \<in> set R \<and> G a = Some A \<and> u # l \<in> set A)"
    by blast
  let ?T = "T\<lparr>RepAuxiliarys := R\<rparr>"
  from assms(1) have len: "\<forall>l \<in> set (DLinks T). length l = 2"
    by (simp add: topology_in_range_def)
  have look: "\<forall>u \<in> set (HostNodes T). \<forall>l \<in> set (DLinks T).
      \<exists>a. auxToRepLookup fs'' u l = Inr a \<and> a \<in> set (RepAuxiliarys ?T)"
    using lk cov len by fastforce
  from inv have d: "distinct (RepAuxiliarys ?T)" by (simp add: orbitInv_def)
  have enc: "\<forall>l \<in> set (DLinks T). \<exists>encode. encodeLinkConstraint ?T fs'' l = Inr (l, encode)"
    using look by (auto simp: encodeLinkConstraint_Inr [OF d])
  have len3: "\<forall>r \<in> set R. length r = 3"
  proof
    fix r assume "r \<in> set R"
    with inv obtain A where "r \<in> set A" "set A \<subseteq> V" unfolding orbitInv_def by blast
    moreover from inv have "V \<subseteq> tuples (number_of_nodes T) 3" unfolding orbitInv_def by blast
    ultimately show "length r = 3" by (auto simp: tuples_def)
  qed
  have "\<exists>opt' tc fc. createVariables opt = Inr opt'
      \<and> setAuxThroughputConstraint opt' fs'' = Inr tc
      \<and> setAuxFlowConstraint opt' fs'' = Inr fc"
    if t: "Topo opt = ?T\<lparr>RepLinkConstrs := RL\<rparr>" and ok: "representatives_ok (Topo opt)"
    for RL opt
  proof (rule aux_callers_Inr [where T = "?T\<lparr>RepLinkConstrs := RL\<rparr>"])
    from ok t show "representatives_ok (?T\<lparr>RepLinkConstrs := RL\<rparr>)" by simp
    from look show "\<forall>u \<in> set (HostNodes (?T\<lparr>RepLinkConstrs := RL\<rparr>)).
        \<forall>l \<in> set (DLinks (?T\<lparr>RepLinkConstrs := RL\<rparr>)).
          \<exists>a. auxToRepLookup fs'' u l = Inr a
            \<and> a \<in> set (RepAuxiliarys (?T\<lparr>RepLinkConstrs := RL\<rparr>))" by simp
    from len3 show "\<forall>r \<in> set (RepAuxiliarys (?T\<lparr>RepLinkConstrs := RL\<rparr>)). length r = 3"
      by simp
    from len show "\<forall>l \<in> set (DLinks (?T\<lparr>RepLinkConstrs := RL\<rparr>)). length l = 2" by simp
    from t show "Topo opt = ?T\<lparr>RepLinkConstrs := RL\<rparr>" .
  qed
  with run c look enc show ?thesis by blast
qed

subsection \<open>Signatures of links in one orbit\<close>

lemma mset_map_perm:
  assumes "distinct xs" and "inj_on f (set xs)" and "f ` set xs = set xs"
  shows "mset (map f xs) = mset xs"
proof -
  have "mset (map f xs) = image_mset f (mset_set (set xs))"
    using assms(1) by (simp add: mset_set_set)
  also have "\<dots> = mset_set (f ` set xs)"
    using assms(2) by (rule image_mset_mset_set)
  also have "\<dots> = mset xs"
    using assms(1,3) by (simp add: mset_set_set)
  finally show ?thesis .
qed

lemma length_filter_perm:
  assumes "distinct xs" and "inj_on f (set xs)" and "f ` set xs = set xs"
  shows "length (filter P xs) = length (filter (\<lambda>x. P (f x)) xs)"
proof -
  have "length (filter P xs) = size (filter_mset P (mset xs))"
    by (simp flip: mset_filter)
  also have "\<dots> = size (filter_mset P (mset (map f xs)))"
    by (simp only: mset_map_perm [OF assms])
  also have "\<dots> = size (mset (filter P (map f xs)))"
    by (simp only: mset_filter)
  also have "\<dots> = length (filter P (map f xs))"
    by (rule size_mset)
  also have "\<dots> = length (filter (\<lambda>x. P (f x)) xs)"
    by (simp add: filter_map comp_def)
  finally show ?thesis .
qed

lemma hosts_perm:
  assumes "automorphic T" and "g \<in> set (Autgen T)"
  shows "inj_on ((!) g) (set (HostNodes T))" and "(!) g ` set (HostNodes T) = set (HostNodes T)"
proof -
  let ?N = "number_of_nodes T"
  from assms have lg: "length g = ?N" and dg: "distinct g"
    by (auto simp: automorphic_def gens_perm_def gens_in_range_def)
  from assms have hN: "\<forall>u \<in> set (HostNodes T). u < ?N"
    by (simp add: automorphic_def topology_in_range_def)
  have "inj_on ((!) g) {..<?N}" using dg lg by (intro inj_on_nth) auto
  then show inj: "inj_on ((!) g) (set (HostNodes T))"
    by (rule inj_on_subset) (use hN in auto)
  from assms have "(!) g ` set (HostNodes T) \<subseteq> set (HostNodes T)"
    by (auto simp: automorphic_def)
  with inj show "(!) g ` set (HostNodes T) = set (HostNodes T)"
    by (intro endo_inj_surj) auto
qed

lemma encode_generator:
  assumes "automorphic T" and "Stage fs ''findRepresentativeAuxs'' = None"
  shows "\<exists>T' fs' fs''. findRepresentativeAuxs pick T fs = Some (Inr (T', fs'))
     \<and> computeAuxReverseMap T' fs' = Inr fs''
     \<and> (\<forall>l \<in> set (DLinks T). \<exists>e. encodeLinkConstraint T' fs'' l = Inr (l, e)
           \<and> (\<forall>g \<in> set (Autgen T). encodeLinkConstraint T' fs'' (act g l) = Inr (act g l, e)))"
proof -
  let ?N = "number_of_nodes T"
  from assms(1) have inr: "topology_in_range T" and perm: "gens_perm ?N (Autgen T)"
    and dh: "distinct (HostNodes T)"
    and gh: "\<forall>g \<in> set (Autgen T). \<forall>u \<in> set (HostNodes T). g ! u \<in> set (HostNodes T)"
    and gl: "\<forall>g \<in> set (Autgen T). \<forall>l \<in> set (DLinks T). act g l \<in> set (DLinks T)"
    by (simp_all add: automorphic_def)
  from inr have len: "\<forall>l \<in> set (DLinks T). length l = 2"
    by (simp add: topology_in_range_def)
  from aux_pipeline [OF inr assms(2), of pick] obtain R G V fs' fs'' where
    run: "findRepresentativeAuxs pick T fs = Some (Inr (T\<lparr>RepAuxiliarys := R\<rparr>, fs'))"
    and c: "computeAuxReverseMap (T\<lparr>RepAuxiliarys := R\<rparr>) fs' = Inr fs''"
    and inv: "orbitInv ?N 3 (Autgen T) V R G"
    and cov: "\<forall>u \<in> set (HostNodes T). \<forall>l \<in> set (DLinks T). u # l \<in> V"
    and lk: "\<forall>u \<in> set (HostNodes T). \<forall>l. length l = 2 \<and> u # l \<in> V \<longrightarrow>
          (\<exists>a A. auxToRepLookup fs'' u l = Inr a \<and> a \<in> set R \<and> G a = Some A \<and> u # l \<in> set A)"
    by blast
  let ?T = "T\<lparr>RepAuxiliarys := R\<rparr>"
  from inv have dR: "distinct (RepAuxiliarys ?T)"
    and dis: "\<forall>r \<in> set R. \<forall>r' \<in> set R. \<forall>A A'. G r = Some A \<and> G r' = Some A' \<and> r \<noteq> r'
         \<longrightarrow> set A \<inter> set A' = {}"
    and clG: "\<forall>r \<in> set R. \<forall>A. G r = Some A \<longrightarrow> (\<forall>x \<in> set A. \<forall>g \<in> set (Autgen T). act g x \<in> set A)"
    using perm unfolding orbitInv_def by simp_all
  have same: "auxToRepLookup fs'' (g ! u) (act g l) = auxToRepLookup fs'' u l"
    if g: "g \<in> set (Autgen T)" and u: "u \<in> set (HostNodes T)" and l: "l \<in> set (DLinks T)"
    for g u l
  proof -
    from lk u l cov len obtain a A where a: "auxToRepLookup fs'' u l = Inr a" "a \<in> set R"
      "G a = Some A" "u # l \<in> set A" by blast
    from gh g u have u': "g ! u \<in> set (HostNodes T)" by blast
    from gl g l have l': "act g l \<in> set (DLinks T)" by blast
    from lk u' l' cov len obtain a' A' where a': "auxToRepLookup fs'' (g ! u) (act g l) = Inr a'"
      "a' \<in> set R" "G a' = Some A'" "(g ! u) # act g l \<in> set A'" by blast
    from clG a g have "act g (u # l) \<in> set A" by blast
    then have "(g ! u) # act g l \<in> set A" by (simp add: act_def)
    with a'(4) have "set A \<inter> set A' \<noteq> {}" by blast
    with dis a(2,3) a'(2,3) have "a = a'" by blast
    with a(1) a'(1) show ?thesis by simp
  qed
  have hc: "hostCount ?T fs'' (act g l) a = hostCount ?T fs'' l a"
    if g: "g \<in> set (Autgen T)" and l: "l \<in> set (DLinks T)" for g l a
  proof -
    have "length (filter (\<lambda>u. auxToRepLookup fs'' u (act g l) = Inr a) (HostNodes T))
        = length (filter (\<lambda>u. auxToRepLookup fs'' (g ! u) (act g l) = Inr a) (HostNodes T))"
      by (rule length_filter_perm [OF dh hosts_perm [OF assms(1) g]])
    also have "filter (\<lambda>u. auxToRepLookup fs'' (g ! u) (act g l) = Inr a) (HostNodes T)
        = filter (\<lambda>u. auxToRepLookup fs'' u l = Inr a) (HostNodes T)"
      by (rule filter_cong [OF refl]) (simp add: same [OF g _ l])
    finally show ?thesis by (simp add: hostCount_def)
  qed
  have look: "\<forall>u \<in> set (HostNodes ?T). \<exists>a \<in> set (RepAuxiliarys ?T). auxToRepLookup fs'' u l = Inr a"
    if l: "l \<in> set (DLinks T)" for l
    using lk cov len l by fastforce
  have "\<exists>e. encodeLinkConstraint ?T fs'' l = Inr (l, e)
           \<and> (\<forall>g \<in> set (Autgen T). encodeLinkConstraint ?T fs'' (act g l) = Inr (act g l, e))"
    if l: "l \<in> set (DLinks T)" for l
  proof -
    let ?e = "concat (map (\<lambda>a. [hostCount ?T fs'' l a, hostCount ?T fs'' l a]) (RepAuxiliarys ?T))"
    have 1: "encodeLinkConstraint ?T fs'' l = Inr (l, ?e)"
      unfolding encodeLinkConstraint_Inr [OF dR] using look [OF l] by blast
    have 2: "encodeLinkConstraint ?T fs'' (act g l) = Inr (act g l, ?e)"
      if g: "g \<in> set (Autgen T)" for g
    proof -
      from gl g l have l': "act g l \<in> set (DLinks T)" by blast
      have "(\<lambda>a. [hostCount ?T fs'' (act g l) a, hostCount ?T fs'' (act g l) a])
          = (\<lambda>a. [hostCount ?T fs'' l a, hostCount ?T fs'' l a])"
        by (intro ext) (simp add: hc [OF g l])
      then show ?thesis
        unfolding encodeLinkConstraint_Inr [OF dR] using look [OF l'] by simp
    qed
    from 1 2 show ?thesis by blast
  qed
  with run c show ?thesis by blast
qed

lemma DLinks_back:
  assumes "automorphic T" and "g \<in> set (Autgen T)" and "applyGenerator y g = Inr z"
    and "z \<in> set (DLinks T)"
  shows "y \<in> set (DLinks T)"
proof -
  let ?N = "number_of_nodes T"
  from assms(1) have inr: "topology_in_range T" and perm: "gens_perm ?N (Autgen T)"
    and gl: "\<forall>l \<in> set (DLinks T). act g l \<in> set (DLinks T)"
    using assms(2) by (simp_all add: automorphic_def)
  from perm assms(2) have lg: "length g = ?N" by (simp add: gens_perm_def gens_in_range_def)
  from applyGenerator_Inr [OF assms(3)] have yr: "\<forall>n \<in> set y. n < length g"
    and z: "z = act g y" by (simp_all add: act_def)
  from inr have sub: "set (DLinks T) \<subseteq> tuples ?N 2"
    by (auto simp: topology_in_range_def tuples_def)
  from z have "length y = length z" by (simp add: act_def)
  with sub assms(4) yr lg have y: "y \<in> tuples ?N 2"
    by (auto simp: tuples_def in_range_def)
  from assms(4) z have "act g y \<in> set (DLinks T)" by simp
  from closed_back [OF perm assms(2) sub gl y this] show ?thesis .
qed

text \<open>
  Claim C5. When the generators are automorphisms of the topology, two directed links in
  the same orbit of the generated group get the same signature from
  \<open>encodeLinkConstraint\<close>, run after \<open>findRepresentativeAuxs\<close> has computed the
  auxiliary orbits (no stage checkpoint of it exists) and after \<open>computeAuxReverseMap\<close>,
  for every order of \<open>tovisit.pop()\<close>.
\<close>

theorem encodeLinkConstraint_orbit_invariant:
  assumes "automorphic T" and "Stage fs ''findRepresentativeAuxs'' = None"
    and "l1 \<in> set (DLinks T)" and "same_orbit (Autgen T) l1 l2"
  shows "\<exists>T' fs' fs'' e. findRepresentativeAuxs pick T fs = Some (Inr (T', fs'))
     \<and> computeAuxReverseMap T' fs' = Inr fs''
     \<and> encodeLinkConstraint T' fs'' l1 = Inr (l1, e)
     \<and> encodeLinkConstraint T' fs'' l2 = Inr (l2, e)"
proof -
  from encode_generator [OF assms(1,2), of pick] obtain T' fs' fs'' where
    run: "findRepresentativeAuxs pick T fs = Some (Inr (T', fs'))"
    and c: "computeAuxReverseMap T' fs' = Inr fs''"
    and gen: "\<forall>l \<in> set (DLinks T). \<exists>e. encodeLinkConstraint T' fs'' l = Inr (l, e)
           \<and> (\<forall>g \<in> set (Autgen T). encodeLinkConstraint T' fs'' (act g l) = Inr (act g l, e))"
    by blast
  from assms(1) have gl: "\<forall>g \<in> set (Autgen T). \<forall>l \<in> set (DLinks T). act g l \<in> set (DLinks T)"
    by (simp add: automorphic_def)
  have "l2 \<in> set (DLinks T)
      \<and> (\<exists>e. encodeLinkConstraint T' fs'' l1 = Inr (l1, e)
              \<and> encodeLinkConstraint T' fs'' l2 = Inr (l2, e))"
    using assms(4,3)
  proof (induction rule: same_orbit.induct)
    case (same_orbit_refl x)
    with gen show ?case by blast
  next
    case (same_orbit_fwd x y g z)
    then obtain e where y: "y \<in> set (DLinks T)"
      and e1: "encodeLinkConstraint T' fs'' x = Inr (x, e)"
      and ey: "encodeLinkConstraint T' fs'' y = Inr (y, e)" by blast
    from applyGenerator_Inr [OF same_orbit_fwd.hyps(3)] have z: "z = act g y"
      by (simp add: act_def)
    from gen y same_orbit_fwd.hyps(2) ey have "encodeLinkConstraint T' fs'' (act g y) = Inr (act g y, e)"
      by fastforce
    moreover from gl y same_orbit_fwd.hyps(2) have "act g y \<in> set (DLinks T)" by blast
    ultimately show ?case using e1 z by blast
  next
    case (same_orbit_bwd x z g y)
    then obtain e where zl: "z \<in> set (DLinks T)"
      and e1: "encodeLinkConstraint T' fs'' x = Inr (x, e)"
      and ez: "encodeLinkConstraint T' fs'' z = Inr (z, e)" by blast
    from applyGenerator_Inr [OF same_orbit_bwd.hyps(3)] have z: "z = act g y"
      by (simp add: act_def)
    from DLinks_back [OF assms(1) same_orbit_bwd.hyps(2,3) zl] have y: "y \<in> set (DLinks T)" .
    with gen obtain e' where ey: "encodeLinkConstraint T' fs'' y = Inr (y, e')"
      and eg: "\<forall>g \<in> set (Autgen T). encodeLinkConstraint T' fs'' (act g y) = Inr (act g y, e')"
      by blast
    from eg same_orbit_bwd.hyps(2) z ez have "e' = e" by auto
    with ey e1 y show ?case by blast
  qed
  with run c show ?thesis by blast
qed

lemma auxOrbit_Nil: "auxOrbit pick gens [] autauxs visited = Some (Inr (autauxs, visited))"
  by (subst auxOrbit.simps) simp

lemma auxOrbit_step:
  "tovisit \<noteq> [] \<Longrightarrow> auxOrbit pick gens tovisit autauxs visited =
     (case pop pick tovisit of
        (aux, tv1) \<Rightarrow>
          (case auxNext gens aux (set_add aux visited) tv1 of
             Inl e \<Rightarrow> Some (Inl e)
           | Inr tv2 \<Rightarrow> auxOrbit pick gens tv2 (set_add aux autauxs) (set_add aux visited)))"
  by (subst auxOrbit.simps) simp

lemma ex_auxindice: "auxindice ex_topo = Inr [[0, 0, 1], [0, 1, 0], [1, 0, 1], [1, 1, 0]]"
  by (simp add: auxindice_def ex_topo_def)

lemma ex_orbit1:
  "auxOrbit pick0 [[1, 0]] [[0, 0, 1]] [] []
     = Some (Inr ([[0, 0, 1], [1, 1, 0]], [[0, 0, 1], [1, 1, 0]]))"
  by (simp add: auxOrbit_step auxOrbit_Nil pop_def pick0_def set_add_def getitem_def)

lemma ex_orbit2:
  "auxOrbit pick0 [[1, 0]] [[0, 1, 0]] [] [[0, 0, 1], [1, 1, 0]]
     = Some (Inr ([[0, 1, 0], [1, 0, 1]], [[0, 0, 1], [1, 1, 0], [0, 1, 0], [1, 0, 1]]))"
  by (simp add: auxOrbit_step auxOrbit_Nil pop_def pick0_def set_add_def getitem_def)

lemma ex_auxLoop:
  "auxLoop pick0 [[1, 0]] [[0, 0, 1], [0, 1, 0], [1, 0, 1], [1, 1, 0]] ([], [], G)
     = Some (Inr ([[0, 0, 1], [1, 1, 0], [0, 1, 0], [1, 0, 1]], [[0, 0, 1], [0, 1, 0]],
          G([0, 0, 1] \<mapsto> [[0, 0, 1], [1, 1, 0]], [0, 1, 0] \<mapsto> [[0, 1, 0], [1, 0, 1]])))"
  using ex_orbit1 ex_orbit2 by (simp add: set_add_def)

lemma ex_findRepresentativeAuxs:
  "findRepresentativeAuxs pick0 ex_topo ex_files_fresh
     = Some (Inr (ex_topo, ex_files\<lparr>AuxToRep := Map.empty\<rparr>))"
proof -
  have g: "Autgen ex_topo = [[1, 0]]" by (simp add: ex_topo_def)
  have st: "Stage ex_files_fresh ''findRepresentativeAuxs'' = None"
    by (simp add: ex_files_fresh_def)
  have f: "ex_files_fresh\<lparr>AuxiliaryGroup := (AuxiliaryGroup ex_files_fresh)
           ([0, 0, 1] \<mapsto> [[0, 0, 1], [1, 1, 0]], [0, 1, 0] \<mapsto> [[0, 1, 0], [1, 0, 1]]),
         Stage := (Stage ex_files_fresh)(''findRepresentativeAuxs'' \<mapsto> [[0, 0, 1], [0, 1, 0]])\<rparr>
        = ex_files\<lparr>AuxToRep := Map.empty\<rparr>"
    by (simp add: ex_files_fresh_def ex_files_def)
  have t: "ex_topo\<lparr>RepAuxiliarys := [[0, 0, 1], [0, 1, 0]]\<rparr> = ex_topo"
    by (simp add: ex_topo_def)
  show ?thesis
    by (simp only: findRepresentativeAuxs_def st ex_auxindice g ex_auxLoop sum.case option.case
        prod.case f t)
qed

lemma ex_computeAuxReverseMap:
  "computeAuxReverseMap ex_topo (ex_files\<lparr>AuxToRep := Map.empty\<rparr>) = Inr ex_files"
proof -
  let ?fs0 = "ex_files\<lparr>AuxToRep := Map.empty\<rparr>"
  let ?fs1 = "ex_files\<lparr>AuxToRep := [0 \<mapsto> [[0, 1] \<mapsto> [0, 0, 1], [1, 0] \<mapsto> [0, 1, 0]]]\<rparr>"
  have h: "HostNodes ex_topo = [0, 1]" and r: "RepAuxiliarys ex_topo = [[0, 0, 1], [0, 1, 0]]"
    by (simp_all add: ex_topo_def)
  have g: "AuxiliaryGroup ex_files [0, 0, 1] = Some [[0, 0, 1], [1, 1, 0]]"
    "AuxiliaryGroup ex_files [0, 1, 0] = Some [[0, 1, 0], [1, 0, 1]]"
    by (simp_all add: ex_files_def)
  have 0: "auxToRepHost ex_topo 0 ?fs0 = Inr ?fs1"
    unfolding auxToRepHost_def r using g
    by (simp add: auxToRepGroup_def auxToRepMember_def)
  have 1: "auxToRepHost ex_topo 1 ?fs1 = Inr ex_files"
    unfolding auxToRepHost_def r using g
    by (simp add: auxToRepGroup_def auxToRepMember_def) (simp add: ex_files_def)
  show ?thesis unfolding computeAuxReverseMap_def h using 0 1 by simp
qed

lemma ex_in_range: "topology_in_range ex_topo"
  by (simp add: topology_in_range_def gens_in_range_def in_range_def number_of_nodes_def
      ex_topo_def)

lemma ex_automorphic: "automorphic ex_topo"
  using ex_in_range
  by (simp add: automorphic_def gens_perm_def gens_in_range_def number_of_nodes_def act_def
      ex_topo_def)

lemma ex_fresh_stage: "Stage ex_files_fresh ''findRepresentativeAuxs'' = None"
  by (simp add: ex_files_fresh_def)

lemma ex_representatives_ok: "representatives_ok ex_topo"
  by (simp add: representatives_ok_def capacity_def ex_topo_def)

lemma ex_createVariables: "createVariables ex_opt = Inr ex_opt"
  by (simp add: createVariables_def createFlowVars_def createFlowVar_def createAuxVar_def
      capacity_def ebind_def ex_opt_def ex_topo_def)

lemma ex_setAuxThroughputConstraint:
  "setAuxThroughputConstraint ex_opt ex_files =
     Inr [\<lparr>ac_name = AUXTC 0 1,
           ac_lhs = [(1, B_var [0, 0, 1]), (1, G_var [0, 0, 1]),
                     (1, B_var [0, 1, 0]), (1, G_var [0, 1, 0])],
           ac_rhs = Some R_var\<rparr>]"
  by (simp add: setAuxThroughputConstraint_def auxtcLink_def auxtcHost_def auxToRepLookup_def
      numServer_def ebind_def ex_opt_def ex_topo_def ex_files_def)

lemma ex_setAuxFlowConstraint:
  "setAuxFlowConstraint ex_opt ex_files =
     Inr [\<lparr>ac_name = AUXFC [0, 1, 0, 1],
           ac_lhs = [(1, F_var [0, 1] [0, 1]), (- 1, B_var [0, 0, 1]), (- 1, G_var [0, 1, 0])],
           ac_rhs = None\<rparr>,
          \<lparr>ac_name = AUXFC [0, 1, 1, 0],
           ac_lhs = [(1, F_var [0, 1] [1, 0]), (- 1, B_var [0, 1, 0]), (- 1, G_var [0, 0, 1])],
           ac_rhs = None\<rparr>]"
  by (simp add: setAuxFlowConstraint_def auxfcCommodity_def auxfcLink_def auxToRepLookup_def
      capacity_def getitem_def ebind_def ex_opt_def ex_topo_def ex_files_def)

theorem computeAuxReverseMap_total_witness:
  "topology_in_range ex_topo \<and> Stage ex_files_fresh ''findRepresentativeAuxs'' = None
   \<and> findRepresentativeAuxs pick0 ex_topo ex_files_fresh
       = Some (Inr (ex_topo, ex_files\<lparr>AuxToRep := Map.empty\<rparr>))
   \<and> computeAuxReverseMap ex_topo (ex_files\<lparr>AuxToRep := Map.empty\<rparr>) = Inr ex_files
   \<and> auxToRepLookup ex_files 1 [0, 1] = Inr [0, 1, 0]
   \<and> [0, 1, 0] \<in> set (RepAuxiliarys ex_topo)
   \<and> encodeLinkConstraint ex_topo ex_files [0, 1] = Inr ([0, 1], [1, 1, 1, 1])
   \<and> Topo ex_opt = ex_topo\<lparr>RepLinkConstrs := [[0, 1]]\<rparr>
   \<and> representatives_ok (Topo ex_opt)
   \<and> createVariables ex_opt = Inr ex_opt
   \<and> setAuxThroughputConstraint ex_opt ex_files =
       Inr [\<lparr>ac_name = AUXTC 0 1,
             ac_lhs = [(1, B_var [0, 0, 1]), (1, G_var [0, 0, 1]),
                       (1, B_var [0, 1, 0]), (1, G_var [0, 1, 0])],
             ac_rhs = Some R_var\<rparr>]
   \<and> setAuxFlowConstraint ex_opt ex_files =
       Inr [\<lparr>ac_name = AUXFC [0, 1, 0, 1],
             ac_lhs = [(1, F_var [0, 1] [0, 1]), (- 1, B_var [0, 0, 1]), (- 1, G_var [0, 1, 0])],
             ac_rhs = None\<rparr>,
            \<lparr>ac_name = AUXFC [0, 1, 1, 0],
             ac_lhs = [(1, F_var [0, 1] [1, 0]), (- 1, B_var [0, 1, 0]), (- 1, G_var [0, 0, 1])],
             ac_rhs = None\<rparr>]"
proof -
  have t: "Topo ex_opt = ex_topo\<lparr>RepLinkConstrs := [[0, 1]]\<rparr>"
    by (simp add: ex_opt_def ex_topo_def)
  have ok: "representatives_ok (Topo ex_opt)"
    using ex_representatives_ok by (simp add: ex_opt_def)
  from computeAuxReverseMap_total [OF ex_in_range ex_fresh_stage, of pick0]
  have all: "(\<forall>u \<in> set (HostNodes ex_topo). \<forall>l \<in> set (DLinks ex_topo).
          \<exists>a. auxToRepLookup ex_files u l = Inr a \<and> a \<in> set (RepAuxiliarys ex_topo))
    \<and> (\<forall>RL opt. Topo opt = ex_topo\<lparr>RepLinkConstrs := RL\<rparr> \<and> representatives_ok (Topo opt) \<longrightarrow>
          (\<exists>opt' tc fc. createVariables opt = Inr opt'
              \<and> setAuxThroughputConstraint opt' ex_files = Inr tc
              \<and> setAuxFlowConstraint opt' ex_files = Inr fc))"
    by (simp add: ex_findRepresentativeAuxs ex_computeAuxReverseMap) blast
  then have "\<exists>a. auxToRepLookup ex_files 1 [0, 1] = Inr a \<and> a \<in> set (RepAuxiliarys ex_topo)"
    by (simp add: ex_topo_def)
  moreover have "auxToRepLookup ex_files 1 [0, 1] = Inr [0, 1, 0]"
    by (simp add: auxToRepLookup_def ex_files_def)
  moreover from all t ok
  have "\<exists>opt' tc fc. createVariables ex_opt = Inr opt'
              \<and> setAuxThroughputConstraint opt' ex_files = Inr tc
              \<and> setAuxFlowConstraint opt' ex_files = Inr fc" by blast
  ultimately show ?thesis
    using ex_in_range ex_fresh_stage ex_findRepresentativeAuxs ex_computeAuxReverseMap
      ex_encode(1) t ok ex_createVariables ex_setAuxThroughputConstraint
      ex_setAuxFlowConstraint by auto
qed

theorem encodeLinkConstraint_orbit_invariant_witness:
  "automorphic ex_topo \<and> Stage ex_files_fresh ''findRepresentativeAuxs'' = None
   \<and> [0, 1] \<in> set (DLinks ex_topo)
   \<and> same_orbit (Autgen ex_topo) [0, 1] [1, 0]
   \<and> findRepresentativeAuxs pick0 ex_topo ex_files_fresh
       = Some (Inr (ex_topo, ex_files\<lparr>AuxToRep := Map.empty\<rparr>))
   \<and> computeAuxReverseMap ex_topo (ex_files\<lparr>AuxToRep := Map.empty\<rparr>) = Inr ex_files
   \<and> encodeLinkConstraint ex_topo ex_files [0, 1] = Inr ([0, 1], [1, 1, 1, 1])
   \<and> encodeLinkConstraint ex_topo ex_files [1, 0] = Inr ([1, 0], [1, 1, 1, 1])"
proof -
  have l: "[0, 1] \<in> set (DLinks ex_topo)" by (simp add: ex_topo_def)
  have "applyGenerator [0, 1] [1, 0 :: nat] = Inr [1, 0]" by (simp add: getitem_def)
  moreover have "[1, 0] \<in> set (Autgen ex_topo)" by (simp add: ex_topo_def)
  ultimately have o: "same_orbit (Autgen ex_topo) [0, 1] [1, 0]"
    by (intro same_orbit_fwd [OF same_orbit_refl])
  from encodeLinkConstraint_orbit_invariant [OF ex_automorphic ex_fresh_stage l o, of pick0]
  have "\<exists>e. encodeLinkConstraint ex_topo ex_files [0, 1] = Inr ([0, 1], e)
          \<and> encodeLinkConstraint ex_topo ex_files [1, 0] = Inr ([1, 0], e)"
    by (simp add: ex_findRepresentativeAuxs ex_computeAuxReverseMap)
  with ex_automorphic ex_fresh_stage l o ex_findRepresentativeAuxs ex_computeAuxReverseMap
    ex_encode
  show ?thesis by simp
qed

subsection \<open>Representative link constraints\<close>













end
